theory Spec2Isabelle
  imports Main "HOL-Library.Multiset" "HOL-Library.Sublist"
begin

section \<open>Entries and substring containment\<close>

text \<open>
  A Go \<open>string\<close> is a sequence of bytes; it is modelled by \<open>string\<close> (a list of
  8-bit \<open>char\<close>s), so \<open>length\<close> is Go's \<open>len\<close>.  Go's \<open>int\<close> counters are
  modelled by \<open>int\<close>: every counter of the analysis is bounded by the number of bytes
  of the input file, far below \<open>2 ^ 63\<close>.
\<close>

record Entry =
  Key :: string
  Value :: int

text \<open>\<open>strings.Contains(s, substr)\<close>: \<open>substr\<close> occurs in \<open>s\<close> as a contiguous block.\<close>

fun Contains :: "string \<Rightarrow> string \<Rightarrow> bool" where
  "Contains [] sub = (sub = [])"
| "Contains (c # s) sub = (take (length sub) (c # s) = sub \<or> Contains s sub)"

section \<open>MergeIntoSmaller (utils.go)\<close>

text \<open>
  The inner loop, resumed at index \<open>j\<close>: the first index at or after \<open>j\<close> that is
  not \<open>i\<close>, is not flagged in \<open>skip\<close> and whose key is contained in the key of entry \<open>i\<close>
  (the position where the source executes \<open>break\<close>); \<open>None\<close> when the loop runs to
  the end.
\<close>

function find_target :: "Entry list \<Rightarrow> nat set \<Rightarrow> nat \<Rightarrow> nat \<Rightarrow> nat option" where
  "find_target es skip i j =
     (if j < length es then
        (if i = j \<or> j \<in> skip then find_target es skip i (j + 1)
         else if Contains (Key (es ! i)) (Key (es ! j)) then Some j
         else find_target es skip i (j + 1))
      else None)"
  by pat_completeness auto
termination
  by (relation "measure (\<lambda>(es, skip, i, j). length es - j)") auto

declare find_target.simps [simp del]

text \<open>
  The body of the outer loop for index \<open>i\<close>: a flagged entry is passed over; otherwise
  the inner loop runs, and when it breaks at \<open>j\<close> the value of entry \<open>i\<close> is added to
  entry \<open>j\<close> and \<open>i\<close> is flagged.
\<close>

definition merge_step :: "Entry list \<Rightarrow> nat set \<Rightarrow> nat \<Rightarrow> Entry list \<times> nat set" where
  "merge_step es skip i =
     (if i \<in> skip then (es, skip)
      else case find_target es skip i 0 of
             None \<Rightarrow> (es, skip)
           | Some j \<Rightarrow>
               (es[j := (es ! j)\<lparr>Value := Value (es ! j) + Value (es ! i)\<rparr>],
                insert i skip))"

lemma length_merge_step: "length (fst (merge_step es skip i)) = length es"
  by (simp add: merge_step_def split: option.splits)

function merge_loop :: "Entry list \<Rightarrow> nat set \<Rightarrow> nat \<Rightarrow> Entry list \<times> nat set" where
  "merge_loop es skip i =
     (if i < length es then
        merge_loop (fst (merge_step es skip i)) (snd (merge_step es skip i)) (i + 1)
      else (es, skip))"
  by pat_completeness auto
termination
  by (relation "measure (\<lambda>(es, skip, i). length es - i)")
     (auto simp: length_merge_step)

declare merge_loop.simps [simp del]

text \<open>The final loop: the entries whose index is not flagged, in order.\<close>

fun collect :: "Entry list \<Rightarrow> nat set \<Rightarrow> nat \<Rightarrow> Entry list" where
  "collect [] skip i = []"
| "collect (e # es) skip i =
     (if i \<in> skip then collect es skip (i + 1) else e # collect es skip (i + 1))"

definition MergeIntoSmaller :: "Entry list \<Rightarrow> Entry list" where
  "MergeIntoSmaller entities =
     (let r = merge_loop entities {} 0 in collect (fst r) (snd r) 0)"

section \<open>Facts about the merge loops\<close>


lemma find_target_Some:
  "find_target es skip i j = Some t \<Longrightarrow>
     j \<le> t \<and> t < length es \<and> t \<noteq> i \<and> t \<notin> skip \<and>
     Contains (Key (es ! i)) (Key (es ! t)) \<and>
     (\<forall>u. j \<le> u \<and> u < t \<and> u \<noteq> i \<and> u \<notin> skip \<longrightarrow>
          \<not> Contains (Key (es ! i)) (Key (es ! u)))"
proof (induction es skip i j rule: find_target.induct)
  case (1 es skip i j)
  show ?case
  proof (cases "j < length es")
    case False
    with "1.prems" show ?thesis by (simp add: find_target.simps)
  next
    case lt: True
    show ?thesis
    proof (cases "i = j \<or> j \<in> skip")
      case True
      with lt "1.prems" have "find_target es skip i (j + 1) = Some t"
        by (simp add: find_target.simps [of es skip i j])
      from "1.IH"(1) [OF lt True this]
      have ih: "j + 1 \<le> t" "t < length es" "t \<noteq> i" "t \<notin> skip"
        "Contains (Key (es ! i)) (Key (es ! t))"
        "\<And>u. j + 1 \<le> u \<Longrightarrow> u < t \<Longrightarrow> u \<noteq> i \<Longrightarrow> u \<notin> skip \<Longrightarrow>
            \<not> Contains (Key (es ! i)) (Key (es ! u))"
        by auto
      have "\<not> Contains (Key (es ! i)) (Key (es ! u))"
        if "j \<le> u" "u < t" "u \<noteq> i" "u \<notin> skip" for u
      proof -
        from that True have "u \<noteq> j" by auto
        with that have "j + 1 \<le> u" by simp
        with that ih(6) show ?thesis by blast
      qed
      with ih show ?thesis by auto
    next
      case nsk: False
      show ?thesis
      proof (cases "Contains (Key (es ! i)) (Key (es ! j))")
        case True
        with lt nsk "1.prems" have "t = j"
          by (simp add: find_target.simps [of es skip i j])
        with lt nsk True show ?thesis by auto
      next
        case False
        with lt nsk "1.prems" have "find_target es skip i (j + 1) = Some t"
          by (simp add: find_target.simps [of es skip i j])
        from "1.IH"(2) [OF lt nsk False this]
        have ih: "j + 1 \<le> t" "t < length es" "t \<noteq> i" "t \<notin> skip"
          "Contains (Key (es ! i)) (Key (es ! t))"
          "\<And>u. j + 1 \<le> u \<Longrightarrow> u < t \<Longrightarrow> u \<noteq> i \<Longrightarrow> u \<notin> skip \<Longrightarrow>
              \<not> Contains (Key (es ! i)) (Key (es ! u))"
          by auto
        have "\<not> Contains (Key (es ! i)) (Key (es ! u))"
          if "j \<le> u" "u < t" "u \<noteq> i" "u \<notin> skip" for u
        proof (cases "u = j")
          case True
          with False show ?thesis by simp
        next
          case nj: False
          with that have "j + 1 \<le> u" by simp
          with that ih(6) show ?thesis by blast
        qed
        with ih show ?thesis by auto
      qed
    qed
  qed
qed


lemma merge_step_skip_mono: "skip \<subseteq> snd (merge_step es skip i)"
  by (auto simp: merge_step_def split: option.splits)

lemma merge_step_frozen:
  "fst (merge_step es skip i) ! k = es ! k" if "k \<in> skip"
proof (cases "find_target es skip i 0")
  case None
  then show ?thesis by (simp add: merge_step_def)
next
  case (Some t)
  from find_target_Some [OF Some] have "t \<notin> skip" by simp
  with that have "k \<noteq> t" by auto
  with Some show ?thesis by (simp add: merge_step_def)
qed

lemma merge_step_Key:
  "map Key (fst (merge_step es skip i)) = map Key es"
  by (auto simp: merge_step_def map_update list_update_same_conv split: option.splits dest!: find_target_Some)

lemma merge_loop_skip_mono: "skip \<subseteq> snd (merge_loop es skip i)"
proof (induction es skip i rule: merge_loop.induct)
  case (1 es skip i)
  show ?case
  proof (cases "i < length es")
    case True
    from "1.IH" [OF True] merge_step_skip_mono [of skip es i] True show ?thesis
      by (subst merge_loop.simps) auto
  next
    case False
    then show ?thesis by (simp add: merge_loop.simps)
  qed
qed

lemma merge_loop_frozen:
  "k \<in> skip \<Longrightarrow> fst (merge_loop es skip i) ! k = es ! k"
proof (induction es skip i rule: merge_loop.induct)
  case (1 es skip i)
  show ?case
  proof (cases "i < length es")
    case True
    from "1.prems" merge_step_skip_mono [of skip es i]
    have "k \<in> snd (merge_step es skip i)" by auto
    from "1.IH" [OF True this] True "1.prems" show ?thesis
      by (subst merge_loop.simps) (simp add: merge_step_frozen)
  next
    case False
    then show ?thesis by (simp add: merge_loop.simps)
  qed
qed

lemma merge_loop_length: "length (fst (merge_loop es skip i)) = length es"
proof (induction es skip i rule: merge_loop.induct)
  case (1 es skip i)
  show ?case
  proof (cases "i < length es")
    case True
    from "1.IH" [OF True] True show ?thesis
      by (subst merge_loop.simps) (simp add: length_merge_step)
  next
    case False
    then show ?thesis by (simp add: merge_loop.simps)
  qed
qed

lemma merge_loop_Key: "map Key (fst (merge_loop es skip i)) = map Key es"
proof (induction es skip i rule: merge_loop.induct)
  case (1 es skip i)
  show ?case
  proof (cases "i < length es")
    case True
    from "1.IH" [OF True] True show ?thesis
      by (subst merge_loop.simps) (simp add: merge_step_Key)
  next
    case False
    then show ?thesis by (simp add: merge_loop.simps)
  qed
qed

text \<open>The sum of the counts of a list of entries.\<close>

definition total :: "Entry list \<Rightarrow> int" where
  "total es = sum_list (map Value es)"

lemma collect_update_total:
  "j < length es \<Longrightarrow> n + j \<notin> skip \<Longrightarrow>
   total (collect (es[j := (es ! j)\<lparr>Value := Value (es ! j) + d\<rparr>]) skip n)
     = total (collect es skip n) + d"
proof (induction es arbitrary: n j)
  case Nil
  then show ?case by simp
next
  case (Cons e es)
  show ?case
  proof (cases j)
    case 0
    with Cons.prems show ?thesis by (simp add: total_def)
  next
    case (Suc j')
    with Cons.prems have "j' < length es" "(n + 1) + j' \<notin> skip" by simp_all
    from Cons.IH [OF this] Suc show ?thesis by (simp add: total_def)
  qed
qed

lemma collect_insert_total:
  "i < length es \<Longrightarrow> n + i \<notin> skip \<Longrightarrow>
   total (collect es (insert (n + i) skip) n) = total (collect es skip n) - Value (es ! i)"
proof (induction es arbitrary: n i)
  case Nil
  then show ?case by simp
next
  case (Cons e es)
  have out: "collect es (insert n skip) (Suc n) = collect es skip (Suc n)" for es
  proof -
    have "m > n \<Longrightarrow> collect es (insert n skip) m = collect es skip m" for m
      by (induction es arbitrary: m) auto
    then show ?thesis by simp
  qed
  show ?case
  proof (cases i)
    case 0
    with Cons.prems show ?thesis by (simp add: total_def out)
  next
    case (Suc i')
    with Cons.prems have "i' < length es" "(n + 1) + i' \<notin> skip" by simp_all
    from Cons.IH [OF this] Suc show ?thesis by (simp add: total_def)
  qed
qed

lemma collect_update_other:
  "n + j \<in> skip \<Longrightarrow> collect (es[j := e]) skip n = collect es skip n"
proof (induction es arbitrary: n j)
  case Nil
  then show ?case by simp
next
  case (Cons a es)
  then show ?case by (cases j) auto
qed

lemma merge_step_total:
  assumes "i < length es"
  shows "total (collect (fst (merge_step es skip i)) (snd (merge_step es skip i)) 0)
           = total (collect es skip 0)"
proof (cases "i \<in> skip")
  case True
  then show ?thesis by (simp add: merge_step_def)
next
  case ni: False
  show ?thesis
  proof (cases "find_target es skip i 0")
    case None
    with ni show ?thesis by (simp add: merge_step_def)
  next
    case (Some t)
    from find_target_Some [OF Some]
    have t: "t < length es" "t \<noteq> i" "t \<notin> skip" by simp_all
    let ?es' = "es[t := (es ! t)\<lparr>Value := Value (es ! t) + Value (es ! i)\<rparr>]"
    have "total (collect ?es' (insert i skip) 0) = total (collect ?es' skip 0) - Value (?es' ! i)"
      using collect_insert_total [of i ?es' 0 skip] assms ni by simp
    also have "?es' ! i = es ! i" using t by simp
    also have "total (collect ?es' skip 0) = total (collect es skip 0) + Value (es ! i)"
      using collect_update_total [of t es 0 skip] t by simp
    finally show ?thesis using Some ni by (simp add: merge_step_def)
  qed
qed

lemma merge_loop_total:
  "total (collect (fst (merge_loop es skip i)) (snd (merge_loop es skip i)) 0)
     = total (collect es skip 0)"
proof (induction es skip i rule: merge_loop.induct)
  case (1 es skip i)
  show ?case
  proof (cases "i < length es")
    case True
    from "1.IH" [OF True] merge_step_total [OF True, of skip] True show ?thesis
      by (subst (1 2) merge_loop.simps) simp
  next
    case False
    then show ?thesis by (simp add: merge_loop.simps)
  qed
qed

lemma collect_empty: "collect es {} n = es"
  by (induction es arbitrary: n) auto

lemma MergeIntoSmaller_total: "total (MergeIntoSmaller es) = total es"
  using merge_loop_total [of es "{}" 0] by (simp add: MergeIntoSmaller_def Let_def collect_empty)

lemma set_collect: "set (collect es skip n) \<subseteq> set es"
  by (induction es arbitrary: n) auto

lemma collect_map_Key: "map Key es = map Key es' \<Longrightarrow> 
   map Key (collect es skip n) = map Key (collect es' skip n)"
proof (induction es arbitrary: es' n)
  case Nil
  then show ?case by simp
next
  case (Cons e es)
  then obtain e' es'' where "es' = e' # es''" by (cases es') auto
  with Cons show ?case by auto
qed

lemma distinct_collect: "distinct (map Key es) \<Longrightarrow> distinct (map Key (collect es skip n))"
proof (induction es arbitrary: n)
  case Nil
  then show ?case by simp
next
  case (Cons e es)
  from set_collect [of es skip "n + 1"] have "Key ` set (collect es skip (n + 1)) \<subseteq> Key ` set es"
    by blast
  with Cons show ?case by auto
qed

lemma MergeIntoSmaller_distinct:
  "distinct (map Key es) \<Longrightarrow> distinct (map Key (MergeIntoSmaller es))"
  using collect_map_Key [OF merge_loop_Key, of es "{}" 0]
  by (simp add: MergeIntoSmaller_def Let_def distinct_collect)














subsection \<open>Claim C1: which entry absorbs which\<close>




subsection \<open>Claim C2: absorbed entries are neither sources nor targets\<close>

text \<open>
  Claim C2 says that an absorbed entry stays eligible as a target.  The inner loop skips
  every flagged \<open>j\<close> (\<open>if i == j || skip[j] { continue }\<close>).  On
  \<open>[xab:3, ab:2, xabc:1]\<close> entry \<open>xab\<close> is absorbed by \<open>ab\<close> first; \<open>xabc\<close> contains
  \<open>xab\<close>, yet its count goes past the flagged \<open>xab\<close> to \<open>ab\<close>: the count of \<open>xab\<close> is
  still 3 when the scan ends and the result is \<open>[ab:6]\<close>.
\<close>

theorem C2_absorbed_entry_not_a_target_counterexample:
  "Contains ''xabc'' ''xab'' \<and>
   merge_step [\<lparr>Key = ''xab'', Value = 3\<rparr>, \<lparr>Key = ''ab'', Value = 2\<rparr>, \<lparr>Key = ''xabc'', Value = 1\<rparr>] {} 0 =
     ([\<lparr>Key = ''xab'', Value = 3\<rparr>, \<lparr>Key = ''ab'', Value = 5\<rparr>, \<lparr>Key = ''xabc'', Value = 1\<rparr>], {0}) \<and>
   find_target [\<lparr>Key = ''xab'', Value = 3\<rparr>, \<lparr>Key = ''ab'', Value = 5\<rparr>, \<lparr>Key = ''xabc'', Value = 1\<rparr>] {0} 2 0 = Some 1 \<and>
   merge_loop [\<lparr>Key = ''xab'', Value = 3\<rparr>, \<lparr>Key = ''ab'', Value = 2\<rparr>, \<lparr>Key = ''xabc'', Value = 1\<rparr>] {} 0 =
     ([\<lparr>Key = ''xab'', Value = 3\<rparr>, \<lparr>Key = ''ab'', Value = 6\<rparr>, \<lparr>Key = ''xabc'', Value = 1\<rparr>], {2, 0}) \<and>
   MergeIntoSmaller [\<lparr>Key = ''xab'', Value = 3\<rparr>, \<lparr>Key = ''ab'', Value = 2\<rparr>, \<lparr>Key = ''xabc'', Value = 1\<rparr>]
     = [\<lparr>Key = ''ab'', Value = 6\<rparr>]"
  by (simp add: MergeIntoSmaller_def merge_loop.simps merge_step_def find_target.simps numeral_2_eq_2)

text \<open>
  Claim C2 as amended.  Once an entry \<open>k\<close> is flagged as absorbed it is never a source
  again (its turn of the outer loop changes nothing), it is never chosen as a target by
  the inner loop of any entry, its key and count stay as they are to the end of the
  scan, and it stays flagged.
\<close>

theorem C2_absorbed_entry_is_inert:
  assumes "k \<in> skip"
  shows "merge_step es skip k = (es, skip) \<and>
         find_target es skip i j \<noteq> Some k \<and>
         fst (merge_loop es skip i) ! k = es ! k \<and>
         k \<in> snd (merge_loop es skip i)"
proof -
  have "find_target es skip i j \<noteq> Some k"
    using find_target_Some [of es skip i j k] assms by auto
  moreover have "k \<in> snd (merge_loop es skip i)"
    using merge_loop_skip_mono [of skip es i] assms by auto
  ultimately show ?thesis
    using assms by (simp add: merge_step_def merge_loop_frozen)
qed

theorem C2_absorbed_entry_is_inert_witness:
  "0 \<in> {0::nat} \<and>
   merge_step [\<lparr>Key = ''xab'', Value = 3\<rparr>, \<lparr>Key = ''ab'', Value = 5\<rparr>, \<lparr>Key = ''xabc'', Value = 1\<rparr>] {0} 0 =
     ([\<lparr>Key = ''xab'', Value = 3\<rparr>, \<lparr>Key = ''ab'', Value = 5\<rparr>, \<lparr>Key = ''xabc'', Value = 1\<rparr>], {0}) \<and>
   find_target [\<lparr>Key = ''xab'', Value = 3\<rparr>, \<lparr>Key = ''ab'', Value = 5\<rparr>, \<lparr>Key = ''xabc'', Value = 1\<rparr>] {0} 2 0 \<noteq> Some 0 \<and>
   fst (merge_loop [\<lparr>Key = ''xab'', Value = 3\<rparr>, \<lparr>Key = ''ab'', Value = 5\<rparr>, \<lparr>Key = ''xabc'', Value = 1\<rparr>] {0} 2) ! 0 =
     \<lparr>Key = ''xab'', Value = 3\<rparr> \<and>
   0 \<in> snd (merge_loop [\<lparr>Key = ''xab'', Value = 3\<rparr>, \<lparr>Key = ''ab'', Value = 5\<rparr>, \<lparr>Key = ''xabc'', Value = 1\<rparr>] {0} 2)"
  using C2_absorbed_entry_is_inert [of 0 "{0}"
      "[\<lparr>Key = ''xab'', Value = 3\<rparr>, \<lparr>Key = ''ab'', Value = 5\<rparr>, \<lparr>Key = ''xabc'', Value = 1\<rparr>]" 2 0]
  by simp

section \<open>Runes: what \<open>range\<close> over a string and \<open>WriteRune\<close> do\<close>

text \<open>
  A rune is a Unicode code point.  \<open>for _, r := range s\<close> decodes the bytes of \<open>s\<close> as
  UTF-8, one rune at a time, as \<open>utf8.DecodeRuneInString\<close> does: an ASCII byte is its
  own rune; a leading byte \<open>0xC2..0xF4\<close> followed by the continuation bytes its
  accept range allows gives a rune of 2, 3 or 4 bytes; anything else gives
  \<open>RuneError\<close> (U+FFFD) and consumes one byte.  The result is the rune and its width.
\<close>

type_synonym rune = nat

definition RuneError :: rune where
  "RuneError = 0xFFFD"

definition cont :: "nat \<Rightarrow> bool" where
  "cont b = (0x80 \<le> b \<and> b \<le> 0xBF)"

fun decode2 :: "nat \<Rightarrow> string \<Rightarrow> rune \<times> nat" where
  "decode2 s0 (c1 # _) =
     (let s1 = (of_char c1 :: nat) in
      if cont s1 then ((s0 - 0xC0) * 64 + (s1 - 0x80), 2) else (RuneError, 1))"
| "decode2 s0 _ = (RuneError, 1)"

fun decode3 :: "nat \<Rightarrow> string \<Rightarrow> rune \<times> nat" where
  "decode3 s0 (c1 # c2 # _) =
     (let s1 = (of_char c1 :: nat); s2 = (of_char c2 :: nat) in
      if (if s0 = 0xE0 then 0xA0 else 0x80) \<le> s1 \<and> s1 \<le> (if s0 = 0xED then 0x9F else 0xBF)
         \<and> cont s2
      then ((s0 - 0xE0) * 4096 + (s1 - 0x80) * 64 + (s2 - 0x80), 3)
      else (RuneError, 1))"
| "decode3 s0 _ = (RuneError, 1)"

fun decode4 :: "nat \<Rightarrow> string \<Rightarrow> rune \<times> nat" where
  "decode4 s0 (c1 # c2 # c3 # _) =
     (let s1 = (of_char c1 :: nat); s2 = (of_char c2 :: nat); s3 = (of_char c3 :: nat) in
      if (if s0 = 0xF0 then 0x90 else 0x80) \<le> s1 \<and> s1 \<le> (if s0 = 0xF4 then 0x8F else 0xBF)
         \<and> cont s2 \<and> cont s3
      then ((s0 - 0xF0) * 262144 + (s1 - 0x80) * 4096 + (s2 - 0x80) * 64 + (s3 - 0x80), 4)
      else (RuneError, 1))"
| "decode4 s0 _ = (RuneError, 1)"

fun DecodeRuneInString :: "string \<Rightarrow> rune \<times> nat" where
  "DecodeRuneInString [] = (RuneError, 0)"
| "DecodeRuneInString (c0 # s) =
     (let s0 = (of_char c0 :: nat) in
      if s0 < 0x80 then (s0, 1)
      else if s0 < 0xC2 \<or> 0xF4 < s0 then (RuneError, 1)
      else if s0 < 0xE0 then decode2 s0 s
      else if s0 < 0xF0 then decode3 s0 s
      else decode4 s0 s)"

text \<open>The runes a \<open>range\<close> loop over the string visits, in order.\<close>

fun runes :: "string \<Rightarrow> rune list" where
  "runes [] = []"
| "runes (c # s) =
     fst (DecodeRuneInString (c # s)) # runes (drop (snd (DecodeRuneInString (c # s)) - 1) s)"

text \<open>
  \<open>WriteRune\<close> appends the UTF-8 encoding of the rune (\<open>utf8.AppendRune\<close>); a surrogate
  or a value beyond U+10FFFF is written as \<open>RuneError\<close>.
\<close>

definition EncodeRune :: "rune \<Rightarrow> string" where
  "EncodeRune r =
     (if r \<le> 0x7F then [char_of r]
      else if r \<le> 0x7FF then [char_of (0xC0 + r div 64), char_of (0x80 + r mod 64)]
      else
        (let r' = (if 0x10FFFF < r \<or> (0xD800 \<le> r \<and> r \<le> 0xDFFF) then RuneError else r) in
         if r' \<le> 0xFFFF
         then [char_of (0xE0 + r' div 4096), char_of (0x80 + (r' div 64) mod 64),
               char_of (0x80 + r' mod 64)]
         else [char_of (0xF0 + r' div 262144), char_of (0x80 + (r' div 4096) mod 64),
               char_of (0x80 + (r' div 64) mod 64), char_of (0x80 + r' mod 64)]))"

section \<open>Unleet and truncateLeetSuffix\<close>

text \<open>
  \<open>leetMap\<close>, keyed by rune: the digits and symbols \<open>0 1 3 4 5 $ ! | @\<close> and the
  accented letters U+00E9, U+00E8, U+00E0, U+00F9, U+00E7, U+00EF.
\<close>

definition leetMap :: "rune \<rightharpoonup> rune" where
  "leetMap = map_of
     [(0x30, 0x6F), (0x31, 0x69), (0x33, 0x65), (0x34, 0x61), (0x35, 0x73),
      (0x24, 0x73), (0x21, 0x69), (0x7C, 0x69), (0x40, 0x61),
      (0xE9, 0x65), (0xE8, 0x65), (0xE0, 0x61), (0xF9, 0x75), (0xE7, 0x63), (0xEF, 0x69)]"

definition unleet_rune :: "rune \<Rightarrow> rune" where
  "unleet_rune r = (case leetMap r of Some repl \<Rightarrow> repl | None \<Rightarrow> r)"

definition Unleet :: "string \<Rightarrow> string" where
  "Unleet token = concat (map (\<lambda>r. EncodeRune (unleet_rune r)) (runes token))"

text \<open>
  \<open>truncateLeetSuffix\<close> works on bytes: a token of at least 5 bytes whose last byte is
  one of \<open>i e a s o\<close> loses that byte.
\<close>

definition truncateLeetSuffix :: "string \<Rightarrow> string" where
  "truncateLeetSuffix token =
     (if length token < 5 then token
      else if last token \<in> set ''ieaso'' then butlast token
      else token)"

section \<open>Decoding what was encoded\<close>

text \<open>The Unicode scalar values: what a decoded rune can be, and what \<open>EncodeRune\<close>
  writes as it is.\<close>

definition valid_rune :: "rune \<Rightarrow> bool" where
  "valid_rune r = (r \<le> 0x10FFFF \<and> \<not> (0xD800 \<le> r \<and> r \<le> 0xDFFF))"

lemma valid_RuneError: "valid_rune RuneError"
  by (simp add: valid_rune_def RuneError_def)

lemma valid2:
  assumes "0xC2 \<le> s0" "s0 < 0xE0" "cont s1"
  shows "valid_rune ((s0 - 0xC0) * 64 + (s1 - 0x80))"
proof -
  obtain a where a: "s0 = 0xC0 + a" using assms(1) le_Suc_ex [of "0xC0" s0] by auto
  obtain b where b: "s1 = 0x80 + b" using assms(3) le_Suc_ex [of "0x80" s1] by (auto simp: cont_def)
  from assms show ?thesis unfolding a b by (simp add: valid_rune_def cont_def)
qed

lemma valid3:
  assumes "0xE0 \<le> s0" "s0 < 0xF0" "(if s0 = 0xE0 then 0xA0 else 0x80) \<le> s1"
    "s1 \<le> (if s0 = 0xED then 0x9F else 0xBF)" "cont s2"
  shows "valid_rune ((s0 - 0xE0) * 4096 + (s1 - 0x80) * 64 + (s2 - 0x80))"
proof -
  obtain a where a: "s0 = 0xE0 + a" using assms(1) le_Suc_ex [of "0xE0" s0] by auto
  have "0x80 \<le> s1" using assms(3) by (simp split: if_splits)
  then obtain b where b: "s1 = 0x80 + b" using le_Suc_ex [of "0x80" s1] by auto
  obtain c where c: "s2 = 0x80 + c" using assms(5) le_Suc_ex [of "0x80" s2] by (auto simp: cont_def)
  have bnd: "a < 16" "b < 64" "c < 64" "a = 13 \<longrightarrow> b < 32"
    using assms unfolding a b c by (simp_all add: cont_def split: if_splits)
  have "valid_rune (a * 4096 + b * 64 + c)"
    unfolding valid_rune_def using bnd by (cases "a = 13"; cases "a < 13") simp_all
  then show ?thesis unfolding a b c by simp
qed

lemma valid4:
  assumes "0xF0 \<le> s0" "s0 \<le> 0xF4" "(if s0 = 0xF0 then 0x90 else 0x80) \<le> s1"
    "s1 \<le> (if s0 = 0xF4 then 0x8F else 0xBF)" "cont s2" "cont s3"
  shows "valid_rune ((s0 - 0xF0) * 262144 + (s1 - 0x80) * 4096 + (s2 - 0x80) * 64 + (s3 - 0x80))"
proof -
  obtain a where a: "s0 = 0xF0 + a" using assms(1) le_Suc_ex [of "0xF0" s0] by auto
  have "0x80 \<le> s1" using assms(3) by (simp split: if_splits)
  then obtain b where b: "s1 = 0x80 + b" using le_Suc_ex [of "0x80" s1] by auto
  obtain c where c: "s2 = 0x80 + c" using assms(5) le_Suc_ex [of "0x80" s2] by (auto simp: cont_def)
  obtain d where d: "s3 = 0x80 + d" using assms(6) le_Suc_ex [of "0x80" s3] by (auto simp: cont_def)
  have bnd: "a \<le> 4" "b < 64" "c < 64" "d < 64" "a = 0 \<longrightarrow> 16 \<le> b" "a = 4 \<longrightarrow> b < 16"
    using assms unfolding a b c d by (simp_all add: cont_def split: if_splits)
  have "valid_rune (a * 262144 + b * 4096 + c * 64 + d)"
    unfolding valid_rune_def using bnd by (cases "a = 0"; cases "a = 4") simp_all
  then show ?thesis unfolding a b c d by simp
qed

lemma decode2_valid: "0xC2 \<le> s0 \<Longrightarrow> s0 < 0xE0 \<Longrightarrow> valid_rune (fst (decode2 s0 s))"
  by (cases "(s0, s)" rule: decode2.cases) (simp_all add: Let_def valid_RuneError valid2)

lemma decode3_valid:
  assumes "0xE0 \<le> s0" "s0 < 0xF0"
  shows "valid_rune (fst (decode3 s0 s))"
proof (cases "(s0, s)" rule: decode3.cases)
  case (1 s0' c1 c2 t)
  then have s: "s = c1 # c2 # t" by simp
  let ?C = "(if s0 = 0xE0 then 0xA0 else 0x80) \<le> (of_char c1 :: nat) \<and>
            (of_char c1 :: nat) \<le> (if s0 = 0xED then 0x9F else 0xBF) \<and> cont (of_char c2)"
  show ?thesis
  proof (cases ?C)
    case True
    then have "decode3 s0 s = ((s0 - 0xE0) * 4096 + (of_char c1 - 0x80) * 64 + (of_char c2 - 0x80), 3)"
      unfolding s decode3.simps Let_def by (rule if_P)
    with valid3 [OF assms, of "of_char c1" "of_char c2"] True show ?thesis by simp
  next
    case False
    then have "decode3 s0 s = (RuneError, 1)"
      unfolding s decode3.simps Let_def by (rule if_not_P)
    then show ?thesis by (simp add: valid_RuneError)
  qed
qed (simp_all add: valid_RuneError)

lemma decode4_valid:
  assumes "0xF0 \<le> s0" "s0 \<le> 0xF4"
  shows "valid_rune (fst (decode4 s0 s))"
proof (cases "(s0, s)" rule: decode4.cases)
  case (1 s0' c1 c2 c3 t)
  then have s: "s = c1 # c2 # c3 # t" by simp
  let ?C = "(if s0 = 0xF0 then 0x90 else 0x80) \<le> (of_char c1 :: nat) \<and>
            (of_char c1 :: nat) \<le> (if s0 = 0xF4 then 0x8F else 0xBF) \<and> cont (of_char c2)
            \<and> cont (of_char c3)"
  show ?thesis
  proof (cases ?C)
    case True
    then have "decode4 s0 s = ((s0 - 0xF0) * 262144 + (of_char c1 - 0x80) * 4096
        + (of_char c2 - 0x80) * 64 + (of_char c3 - 0x80), 4)"
      unfolding s decode4.simps Let_def by (rule if_P)
    with valid4 [OF assms, of "of_char c1" "of_char c2" "of_char c3"] True show ?thesis by simp
  next
    case False
    then have "decode4 s0 s = (RuneError, 1)"
      unfolding s decode4.simps Let_def by (rule if_not_P)
    then show ?thesis by (simp add: valid_RuneError)
  qed
qed (simp_all add: valid_RuneError)

lemma DecodeRune_valid: "valid_rune (fst (DecodeRuneInString s))"
proof (cases s)
  case Nil
  then show ?thesis by (simp add: valid_RuneError)
next
  case (Cons c0 t)
  define s0 where "s0 = (of_char c0 :: nat)"
  have D: "DecodeRuneInString s =
     (if s0 < 0x80 then (s0, 1)
      else if s0 < 0xC2 \<or> 0xF4 < s0 then (RuneError, 1)
      else if s0 < 0xE0 then decode2 s0 t
      else if s0 < 0xF0 then decode3 s0 t
      else decode4 s0 t)"
    unfolding Cons s0_def by (simp only: DecodeRuneInString.simps Let_def)
  consider (ascii) "s0 < 0x80" | (bad) "\<not> s0 < 0x80" "s0 < 0xC2 \<or> 0xF4 < s0"
    | (two) "0xC2 \<le> s0" "s0 < 0xE0" | (three) "0xE0 \<le> s0" "s0 < 0xF0"
    | (four) "0xF0 \<le> s0" "s0 \<le> 0xF4"
    by linarith
  then show ?thesis
  proof cases
    case ascii
    then show ?thesis unfolding D by (simp add: valid_rune_def)
  next
    case bad
    then show ?thesis unfolding D by (simp add: valid_RuneError)
  next
    case two
    with decode2_valid [OF two, of t] show ?thesis unfolding D by simp
  next
    case three
    with decode3_valid [OF three, of t] show ?thesis unfolding D by simp
  next
    case four
    with decode4_valid [OF four, of t] show ?thesis unfolding D by simp
  qed
qed

lemma radix64: "(q::nat) div 64 * (64 * k) + q mod 64 * k = q * k"
proof -
  define x where "x = q div 64"
  define y where "y = q mod 64"
  have "q = x * 64 + y" by (simp add: x_def y_def)
  then show ?thesis unfolding x_def [symmetric] y_def [symmetric]
    by (simp add: add_mult_distrib)
qed

lemma split3: "(r::nat) div 4096 * 4096 + (r div 64) mod 64 * 64 + r mod 64 = r"
proof -
  have 1: "r div 4096 = (r div 64) div 64" by (simp add: div_mult2_eq [symmetric])
  have "r div 4096 * 4096 + (r div 64) mod 64 * 64 = r div 64 * 64"
    unfolding 1 using radix64 [of "r div 64" 64] by simp
  then show ?thesis by simp
qed

lemma split4: "(r::nat) div 262144 * 262144 + (r div 4096) mod 64 * 4096 + (r div 64) mod 64 * 64 + r mod 64 = r"
proof -
  have 1: "r div 262144 = (r div 4096) div 64" by (simp add: div_mult2_eq [symmetric])
  have "r div 262144 * 262144 + (r div 4096) mod 64 * 4096 = r div 4096 * 4096"
    unfolding 1 using radix64 [of "r div 4096" 4096] by simp
  then show ?thesis using split3 [of r] by simp
qed

lemma byte_of_char_of: "n < 256 \<Longrightarrow> (of_char (char_of n) :: nat) = n"
  by simp

lemma decode_encode1:
  assumes "r \<le> 0x7F"
  shows "DecodeRuneInString (EncodeRune r @ t) = (r, length (EncodeRune r))"
  using assms by (simp add: EncodeRune_def Let_def)

lemma dec2_bytes:
  assumes "2 \<le> a" "a < 32" "b < 64"
  shows "DecodeRuneInString (char_of (0xC0 + a) # char_of (0x80 + b) # t) = (a * 64 + b, 2)"
proof -
  have c0: "(of_char (char_of (0xC0 + a)) :: nat) = 0xC0 + a"
    using assms by (intro byte_of_char_of) simp
  have c1: "(of_char (char_of (0x80 + b)) :: nat) = 0x80 + b"
    using assms by (intro byte_of_char_of) simp
  have s0: "\<not> (0xC0 + a < 0x80)" "\<not> (0xC0 + a < 0xC2 \<or> 0xF4 < 0xC0 + a)" "0xC0 + a < 0xE0"
    using assms by simp_all
  have ct: "cont (0x80 + b)" using assms by (simp add: cont_def)
  show ?thesis
    apply (subst DecodeRuneInString.simps)
    apply (simp only: c0 c1 Let_def s0 ct if_True if_False decode2.simps simp_thms)
    apply simp
    done
qed

lemma dec3_bytes:
  assumes "a < 16" "b < 64" "c < 64" "a = 0 \<longrightarrow> 32 \<le> b" "a = 13 \<longrightarrow> b < 32"
  shows "DecodeRuneInString (char_of (0xE0 + a) # char_of (0x80 + b) # char_of (0x80 + c) # t)
           = (a * 4096 + b * 64 + c, 3)"
proof -
  have c0: "(of_char (char_of (0xE0 + a)) :: nat) = 0xE0 + a"
    using assms by (intro byte_of_char_of) simp
  have c1: "(of_char (char_of (0x80 + b)) :: nat) = 0x80 + b"
    using assms by (intro byte_of_char_of) simp
  have c2: "(of_char (char_of (0x80 + c)) :: nat) = 0x80 + c"
    using assms by (intro byte_of_char_of) simp
  have s0: "\<not> (0xE0 + a < 0x80)" "\<not> (0xE0 + a < 0xC2 \<or> 0xF4 < 0xE0 + a)" "\<not> (0xE0 + a < 0xE0)"
     "0xE0 + a < 0xF0" using assms by simp_all
  have lo: "(if 0xE0 + a = 0xE0 then 0xA0 else 0x80) \<le> 0x80 + b" using assms by auto
  have hi: "0x80 + b \<le> (if 0xE0 + a = 0xED then 0x9F else 0xBF)" using assms by auto
  have ct: "cont (0x80 + c)" using assms by (simp add: cont_def)
  show ?thesis
    apply (subst DecodeRuneInString.simps)
    apply (simp only: c0 c1 c2 Let_def s0 lo hi ct if_True if_False decode3.simps simp_thms)
    apply simp
    done
qed

lemma dec4_bytes:
  assumes "a \<le> 4" "b < 64" "c < 64" "d < 64" "a = 0 \<longrightarrow> 16 \<le> b" "a = 4 \<longrightarrow> b < 16"
  shows "DecodeRuneInString
           (char_of (0xF0 + a) # char_of (0x80 + b) # char_of (0x80 + c) # char_of (0x80 + d) # t)
           = (a * 262144 + b * 4096 + c * 64 + d, 4)"
proof -
  have c0: "(of_char (char_of (0xF0 + a)) :: nat) = 0xF0 + a"
    using assms by (intro byte_of_char_of) simp
  have c1: "(of_char (char_of (0x80 + b)) :: nat) = 0x80 + b"
    using assms by (intro byte_of_char_of) simp
  have c2: "(of_char (char_of (0x80 + c)) :: nat) = 0x80 + c"
    using assms by (intro byte_of_char_of) simp
  have c3: "(of_char (char_of (0x80 + d)) :: nat) = 0x80 + d"
    using assms by (intro byte_of_char_of) simp
  have s0: "\<not> (0xF0 + a < 0x80)" "\<not> (0xF0 + a < 0xC2 \<or> 0xF4 < 0xF0 + a)" "\<not> (0xF0 + a < 0xE0)"
     "\<not> (0xF0 + a < 0xF0)" using assms by simp_all
  have lo: "(if 0xF0 + a = 0xF0 then 0x90 else 0x80) \<le> 0x80 + b" using assms by auto
  have hi: "0x80 + b \<le> (if 0xF0 + a = 0xF4 then 0x8F else 0xBF)" using assms by auto
  have ct: "cont (0x80 + c)" "cont (0x80 + d)" using assms by (simp_all add: cont_def)
  show ?thesis
    apply (subst DecodeRuneInString.simps)
    apply (simp only: c0 c1 c2 c3 Let_def s0 lo hi ct if_True if_False decode4.simps simp_thms)
    apply simp
    done
qed

lemma decode_encode2:
  assumes "0x7F < r" "r \<le> 0x7FF"
  shows "DecodeRuneInString (EncodeRune r @ t) = (r, length (EncodeRune r))"
proof -
  have enc: "EncodeRune r = [char_of (0xC0 + r div 64), char_of (0x80 + r mod 64)]"
    using assms by (simp add: EncodeRune_def)
  have "2 \<le> r div 64" "r div 64 < 32" "r mod 64 < 64" using assms by simp_all
  from dec2_bytes [OF this, of t] show ?thesis
    unfolding enc by simp
qed

lemma decode_encode3:
  assumes "0x7FF < r" "r \<le> 0xFFFF" "\<not> (0xD800 \<le> r \<and> r \<le> 0xDFFF)"
  shows "DecodeRuneInString (EncodeRune r @ t) = (r, length (EncodeRune r))"
proof -
  define a where "a = r div 4096"
  define b where "b = (r div 64) mod 64"
  define c where "c = r mod 64"
  have r: "a * 4096 + b * 64 + c = r"
    unfolding a_def b_def c_def by (rule split3)
  have a: "a < 16" using assms by (simp add: a_def)
  have b: "b < 64" by (simp add: b_def)
  have c: "c < 64" by (simp add: c_def)
  have lo: "a = 0 \<longrightarrow> 32 \<le> b" using assms(1) r c by arith
  have hi: "a = 13 \<longrightarrow> b < 32" using assms(2,3) r b c by arith
  have ok: "(0x10FFFF < r \<or> (0xD800 \<le> r \<and> r \<le> 0xDFFF)) = False"
    using assms by auto
  have enc: "EncodeRune r = [char_of (0xE0 + a), char_of (0x80 + b), char_of (0x80 + c)]"
    unfolding EncodeRune_def ok using assms(1,2) by (simp add: a_def b_def c_def)
  from dec3_bytes [OF a b c lo hi, of t] show ?thesis
    unfolding enc r by simp
qed

lemma decode_encode4:
  assumes "0xFFFF < r" "r \<le> 0x10FFFF"
  shows "DecodeRuneInString (EncodeRune r @ t) = (r, length (EncodeRune r))"
proof -
  define a where "a = r div 262144"
  define b where "b = (r div 4096) mod 64"
  define c where "c = (r div 64) mod 64"
  define d where "d = r mod 64"
  have r: "a * 262144 + b * 4096 + c * 64 + d = r"
    unfolding a_def b_def c_def d_def by (rule split4)
  have a: "a \<le> 4" using assms by (simp add: a_def)
  have b: "b < 64" by (simp add: b_def)
  have c: "c < 64" by (simp add: c_def)
  have d: "d < 64" by (simp add: d_def)
  have lo: "a = 0 \<longrightarrow> 16 \<le> b" using assms(1) r c d by arith
  have hi: "a = 4 \<longrightarrow> b < 16" using assms(2) r by arith
  have ok: "(0x10FFFF < r \<or> (0xD800 \<le> r \<and> r \<le> 0xDFFF)) = False"
    using assms by auto
  have enc: "EncodeRune r = [char_of (0xF0 + a), char_of (0x80 + b), char_of (0x80 + c),
      char_of (0x80 + d)]"
    unfolding EncodeRune_def ok using assms by (simp add: a_def b_def c_def d_def)
  from dec4_bytes [OF a b c d lo hi, of t] show ?thesis
    unfolding enc r by simp
qed


lemma decode_encode:
  assumes "valid_rune r"
  shows "DecodeRuneInString (EncodeRune r @ t) = (r, length (EncodeRune r))"
proof -
  consider "r \<le> 0x7F" | "0x7F < r" "r \<le> 0x7FF" | "0x7FF < r" "r \<le> 0xFFFF" | "0xFFFF < r"
    by linarith
  then show ?thesis
  proof cases
    case 1
    then show ?thesis by (rule decode_encode1)
  next
    case 2
    then show ?thesis by (rule decode_encode2)
  next
    case 3
    with assms have "\<not> (0xD800 \<le> r \<and> r \<le> 0xDFFF)" by (simp add: valid_rune_def)
    with 3 show ?thesis by (rule decode_encode3)
  next
    case 4
    with assms have "r \<le> 0x10FFFF" by (simp add: valid_rune_def)
    with 4 show ?thesis by (rule decode_encode4)
  qed
qed

lemma EncodeRune_nonempty: "EncodeRune r \<noteq> []"
  by (simp add: EncodeRune_def Let_def)

lemma runes_encode:
  assumes "valid_rune r"
  shows "runes (EncodeRune r @ t) = r # runes t"
proof -
  obtain c s where cs: "EncodeRune r = c # s"
    using EncodeRune_nonempty [of r] by (cases "EncodeRune r") auto
  have d: "DecodeRuneInString (c # s @ t) = (r, Suc (length s))"
    using decode_encode [OF assms, of t] cs by simp
  show ?thesis
    unfolding cs by (simp add: d del: DecodeRuneInString.simps)
qed

lemma runes_concat_encode:
  "\<forall>r \<in> set rs. valid_rune r \<Longrightarrow> runes (concat (map EncodeRune rs)) = rs"
  by (induction rs) (simp_all add: runes_encode del: runes.simps(2))

lemma runes_valid: "r \<in> set (runes s) \<Longrightarrow> valid_rune r"
proof (induction s arbitrary: r rule: runes.induct)
  case 1
  then show ?case by simp
next
  case (2 c s)
  from "2.prems" have "r = fst (DecodeRuneInString (c # s)) \<or>
      r \<in> set (runes (drop (snd (DecodeRuneInString (c # s)) - 1) s))"
    by (simp del: DecodeRuneInString.simps)
  then show ?case using DecodeRune_valid [of "c # s"] "2.IH" by blast
qed

lemma unleet_rune_valid: "valid_rune r \<Longrightarrow> valid_rune (unleet_rune r)"
  by (auto simp: unleet_rune_def leetMap_def valid_rune_def split: option.splits if_splits)

lemma unleet_rune_idem: "unleet_rune (unleet_rune r) = unleet_rune r"
  by (auto simp: unleet_rune_def leetMap_def split: option.splits if_splits)

lemma runes_Unleet: "runes (Unleet s) = map unleet_rune (runes s)"
proof -
  have "Unleet s = concat (map EncodeRune (map unleet_rune (runes s)))"
    by (simp add: Unleet_def comp_def)
  moreover have "\<forall>r \<in> set (map unleet_rune (runes s)). valid_rune r"
    using runes_valid unleet_rune_valid by auto
  ultimately show ?thesis by (simp only: runes_concat_encode)
qed

subsection \<open>Claim C8: Unleet is idempotent\<close>

text \<open>
  Claim C8.  For every byte string \<open>s\<close> (valid UTF-8 or not),
  \<open>Unleet (Unleet s) = Unleet s\<close>: the output of \<open>Unleet\<close> is valid UTF-8 whose runes
  are the images of the runes of \<open>s\<close>, and no image is itself a key of \<open>leetMap\<close>.
\<close>

theorem C8_Unleet_idempotent: "Unleet (Unleet s) = Unleet s"
proof -
  have "Unleet (Unleet s) = concat (map (\<lambda>r. EncodeRune (unleet_rune r)) (runes (Unleet s)))"
    by (simp add: Unleet_def)
  also have "\<dots> = concat (map (\<lambda>r. EncodeRune (unleet_rune r)) (map unleet_rune (runes s)))"
    by (simp only: runes_Unleet)
  also have "\<dots> = Unleet s"
    by (simp add: Unleet_def comp_def unleet_rune_idem)
  finally show ?thesis .
qed

section \<open>Histograms (\<open>map[K]int\<close>)\<close>

text \<open>
  A Go map from keys to counters is modelled by an association list with distinct keys.
  \<open>upd k f m\<close> is the assignment \<open>m[k] = f(m[k])\<close>, where a missing key reads as 0:
  \<open>m[k]++\<close> is \<open>upd k (\<lambda>v. v + 1) m\<close>, \<open>m[k] += n\<close> is \<open>upd k (\<lambda>v. v + n) m\<close> and
  \<open>m[k] = n\<close> is \<open>upd k (\<lambda>_. n) m\<close>.  The order of the list carries no meaning: Go
  visits a map in an unspecified order, which the model makes a parameter wherever a
  map is ranged over and the order can matter.
\<close>

fun upd :: "'k \<Rightarrow> (int \<Rightarrow> int) \<Rightarrow> ('k \<times> int) list \<Rightarrow> ('k \<times> int) list" where
  "upd k f [] = [(k, f 0)]"
| "upd k f ((k', v) # m) = (if k = k' then (k', f v) # m else (k', v) # upd k f m)"

definition hist_sum :: "('k \<times> int) list \<Rightarrow> int" where
  "hist_sum m = sum_list (map snd m)"

section \<open>The functions of Go's library that the analysis calls\<close>

text \<open>
  The Unicode tables (\<open>unicode.IsUpper\<close>, \<open>unicode.IsLower\<close>, \<open>unicode.IsDigit\<close>,
  \<open>unicode.ToLower\<close>) and the functions \<open>strings.TrimSpace\<close> and \<open>strings.EqualFold\<close>
  belong to Go's library, not to this program; they are parameters of the model, and
  every theorem below holds whatever they are.
\<close>

record go_lib =
  IsUpper :: "rune \<Rightarrow> bool"
  IsLower :: "rune \<Rightarrow> bool"
  IsDigit :: "rune \<Rightarrow> bool"
  ToLowerRune :: "rune \<Rightarrow> rune"
  TrimSpace :: "string \<Rightarrow> string"
  EqualFold :: "string \<Rightarrow> string \<Rightarrow> bool"

text \<open>
  For evaluating examples: the library restricted to what it does on ASCII strings and on
  the runes up to U+00FF (upper case \<open>A-Z\<close>, U+00C0..U+00DE but U+00D7; lower case
  \<open>a-z\<close>, U+00B5, U+00DF..U+00FF but U+00F7; digits \<open>0-9\<close>; ASCII white space).
\<close>

definition upper_latin1 :: "rune \<Rightarrow> bool" where
  "upper_latin1 r = ((0x41 \<le> r \<and> r \<le> 0x5A) \<or> (0xC0 \<le> r \<and> r \<le> 0xDE \<and> r \<noteq> 0xD7))"

definition ascii_space :: "char \<Rightarrow> bool" where
  "ascii_space c = (c \<in> set [CHR 0x09, CHR 0x0A, CHR 0x0B, CHR 0x0C, CHR 0x0D, CHR 0x20])"

definition ascii_lower :: "char \<Rightarrow> char" where
  "ascii_lower c =
     (if 0x41 \<le> (of_char c :: nat) \<and> (of_char c :: nat) \<le> 0x5A
      then char_of ((of_char c :: nat) + 32) else c)"

definition ascii_lib :: go_lib where
  "ascii_lib =
     \<lparr>IsUpper = upper_latin1,
      IsLower = (\<lambda>r. (0x61 \<le> r \<and> r \<le> 0x7A) \<or> r = 0xB5 \<or> (0xDF \<le> r \<and> r \<le> 0xFF \<and> r \<noteq> 0xF7)),
      IsDigit = (\<lambda>r. 0x30 \<le> r \<and> r \<le> 0x39),
      ToLowerRune = (\<lambda>r. if upper_latin1 r then r + 32 else r),
      TrimSpace = (\<lambda>s. rev (dropWhile ascii_space (rev (dropWhile ascii_space s)))),
      EqualFold = (\<lambda>s t. map ascii_lower s = map ascii_lower t)\<rparr>"

section \<open>Classification of a password\<close>

text \<open>\<open>classifyChar\<close>: the rune \<open>u\<close>, \<open>l\<close>, \<open>d\<close> or \<open>s\<close>.\<close>

definition classifyChar :: "go_lib \<Rightarrow> rune \<Rightarrow> rune" where
  "classifyChar L r =
     (if IsUpper L r then 0x75
      else if IsLower L r then 0x6C
      else if IsDigit L r then 0x64
      else 0x73)"

text \<open>
  \<open>countCategories\<close>: the loop over the runes of the password raises the four flags
  (\<open>hasLower\<close>, \<open>hasUpper\<close>, \<open>hasDigit\<close>, \<open>hasSpecial\<close>); the result is \<open>len(password)\<close>, a
  number of bytes, and the number of flags raised.
\<close>

definition category_flag :: "go_lib \<Rightarrow> bool \<times> bool \<times> bool \<times> bool \<Rightarrow> rune \<Rightarrow> bool \<times> bool \<times> bool \<times> bool"
  where
  "category_flag L flags c =
     (case flags of (hasLower, hasUpper, hasDigit, hasSpecial) \<Rightarrow>
        if classifyChar L c = 0x6C then (True, hasUpper, hasDigit, hasSpecial)
        else if classifyChar L c = 0x75 then (hasLower, True, hasDigit, hasSpecial)
        else if classifyChar L c = 0x64 then (hasLower, hasUpper, True, hasSpecial)
        else if classifyChar L c \<noteq> 0x6C \<and> classifyChar L c \<noteq> 0x64 \<and> classifyChar L c \<noteq> 0x75
        then (hasLower, hasUpper, hasDigit, True)
        else flags)"

definition countCategories :: "go_lib \<Rightarrow> string \<Rightarrow> int \<times> int" where
  "countCategories L password =
     (case foldl (category_flag L) (False, False, False, False) (runes password) of
        (hasLower, hasUpper, hasDigit, hasSpecial) \<Rightarrow>
          (int (length password),
           (if hasLower then 1 else 0) + (if hasUpper then 1 else 0)
             + (if hasDigit then 1 else 0) + (if hasSpecial then 1 else 0)))"

text \<open>The pattern of a line: \<open>string(pattern)\<close>, one class rune for each rune of the line.\<close>

definition pattern_of :: "go_lib \<Rightarrow> string \<Rightarrow> string" where
  "pattern_of L line = concat (map (\<lambda>r. EncodeRune (classifyChar L r)) (runes line))"

section \<open>Token extraction\<close>

text \<open>
  \<open>tokenRegex\<close> is \<open>[A-Za-z01345$!|@\<close>U+00E9\<open>]{4,}\<close>.  \<open>FindAllString(line, -1)\<close> returns
  the successive leftmost matches, each as long as possible and none overlapping: the
  maximal runs of runes of the class that are at least 4 runes long, in order.  A byte
  that is not valid UTF-8 counts as U+FFFD, which is outside the class.
\<close>

definition token_class :: "rune \<Rightarrow> bool" where
  "token_class r =
     ((0x41 \<le> r \<and> r \<le> 0x5A) \<or> (0x61 \<le> r \<and> r \<le> 0x7A)
      \<or> r \<in> set [0x30, 0x31, 0x33, 0x34, 0x35, 0x24, 0x21, 0x7C, 0x40, 0xE9])"

function class_runs :: "rune list \<Rightarrow> rune list list" where
  "class_runs [] = []"
| "class_runs (r # rs) =
     (if token_class r
      then (if 4 \<le> length (takeWhile token_class (r # rs))
            then [takeWhile token_class (r # rs)] else [])
           @ class_runs (dropWhile token_class rs)
      else class_runs rs)"
  by pat_completeness auto
termination
  by (relation "measure length") (auto simp: length_dropWhile_le less_Suc_eq_le)

definition FindAllString :: "string \<Rightarrow> string list" where
  "FindAllString line = map (\<lambda>run. concat (map EncodeRune run)) (class_runs (runes line))"

text \<open>
  \<open>strings.ToLower\<close>: an ASCII string is lowered byte by byte; any other string is
  mapped rune by rune through \<open>unicode.ToLower\<close> and encoded again.
\<close>

definition ToLower :: "go_lib \<Rightarrow> string \<Rightarrow> string" where
  "ToLower L s =
     (if list_all (\<lambda>c. (of_char c :: nat) < 0x80) s then map ascii_lower s
      else concat (map (\<lambda>r. EncodeRune (ToLowerRune L r)) (runes s)))"

section \<open>SortMapByValueDesc and getMaxCount\<close>

text \<open>
  \<open>SortMapByValueDesc\<close> appends the entries of the map in the order \<open>range\<close> yields
  them and sorts them with \<open>sort.Slice\<close> by descending \<open>Value\<close>.  Neither the order of
  \<open>range\<close> nor the order \<open>sort.Slice\<close> leaves among equal values is specified.  Both are
  covered by the parameter \<open>ord\<close>, a rearrangement of the entries, followed by a stable
  sort: every outcome Go can produce is the stable sort of some arrangement.
\<close>

definition entries_of :: "(string \<times> int) list \<Rightarrow> Entry list" where
  "entries_of m = map (\<lambda>(k, v). \<lparr>Key = k, Value = v\<rparr>) m"

definition SortMapByValueDesc :: "(Entry list \<Rightarrow> Entry list) \<Rightarrow> (string \<times> int) list \<Rightarrow> Entry list"
  where
  "SortMapByValueDesc ord m = sort_key (\<lambda>e. - Value e) (ord (entries_of m))"

text \<open>What the model asks of \<open>ord\<close>: it rearranges, it neither adds nor drops.\<close>

definition rearranges :: "(Entry list \<Rightarrow> Entry list) \<Rightarrow> bool" where
  "rearranges ord = (\<forall>es. mset (ord es) = mset es)"

definition getMaxCount :: "Entry list \<Rightarrow> int" where
  "getMaxCount entries = (case entries of [] \<Rightarrow> 0 | e # _ \<Rightarrow> Value e)"

section \<open>AnalyzePasswords\<close>

text \<open>
  The fields of \<open>utils.Stats\<close> that \<open>AnalyzePasswords\<close> writes.  The other fields
  (\<open>TotalCount\<close>, \<open>TotalReuseCount\<close>, \<open>Hashes\<close>, \<open>GlobalPercent\<close>, \<open>Risk\<close>, \<open>Top\<close>) and
  \<open>Labels\<close> keep their zero values and are left out.
\<close>

record Stats =
  CrackedCount :: int
  Lengths :: "(int \<times> int) list"
  Complexity :: "(int \<times> int) list"
  Patterns :: "(string \<times> int) list"
  Mostreuse :: "(string \<times> int) list"
  CrackedReuseCount :: int
  TokenCount :: "(string \<times> int) list"

definition empty_stats :: Stats where
  "empty_stats =
     \<lparr>CrackedCount = 0, Lengths = [], Complexity = [], Patterns = [], Mostreuse = [],
      CrackedReuseCount = 0, TokenCount = []\<rparr>"

text \<open>
  A file as the functions see it: it cannot be opened, or the scanner yields its lines
  one by one (\<open>scanner.Text()\<close>) and, when it stops, \<open>scanner.Err()\<close> is nil or not.
\<close>

datatype input_file = Unreadable | Readable "string list" bool

datatype error = OpenError | ScanError | TooFewPasswords

text \<open>The loop over the matches of one line (lines 74 to 81).\<close>

definition count_token :: "go_lib \<Rightarrow> int \<Rightarrow> Stats \<Rightarrow> string \<Rightarrow> Stats" where
  "count_token L minCharOccurences data matched =
     (let lowermatched = ToLower L matched;
          unLeeted = Unleet lowermatched
      in if int (length unLeeted) \<ge> minCharOccurences
         then data\<lparr>TokenCount := upd unLeeted (\<lambda>v. v + 1) (TokenCount data)\<rparr>
         else data)"

text \<open>
  The body of the scanning loop (lines 53 to 82); the state is \<open>data.Stats\<close> and
  \<open>lineCount\<close>.
\<close>

definition scan_line :: "go_lib \<Rightarrow> int \<Rightarrow> Stats \<times> int \<Rightarrow> string \<Rightarrow> Stats \<times> int" where
  "scan_line L minCharOccurences s line =
     (case s of (data, lineCount) \<Rightarrow>
        let matchingStrings = FindAllString line in
        if line = [] then (data, lineCount)
        else
          (case countCategories L line of (len, category) \<Rightarrow>
             let data1 = data
                   \<lparr>Lengths := upd len (\<lambda>v. v + 1) (Lengths data),
                    Complexity := upd category (\<lambda>v. v + 1) (Complexity data),
                    Mostreuse := upd line (\<lambda>v. v + 1) (Mostreuse data),
                    CrackedCount := CrackedCount data + 1\<rparr>;
                 data2 = data1\<lparr>Patterns := upd (pattern_of L line) (\<lambda>v. v + 1) (Patterns data1)\<rparr>
             in (foldl (count_token L minCharOccurences) data2 matchingStrings, lineCount + 1)))"

definition scan_lines :: "go_lib \<Rightarrow> int \<Rightarrow> string list \<Rightarrow> Stats \<times> int" where
  "scan_lines L minCharOccurences lines =
     foldl (scan_line L minCharOccurences) (empty_stats, 0) lines"

text \<open>
  The alternative histogram (lines 88 to 96).  The map it builds does not depend on the
  order in which \<open>range\<close> visits \<open>TokenCount\<close>.
\<close>

definition truncate_step :: "int \<Rightarrow> (string \<times> int) list \<Rightarrow> string \<times> int \<Rightarrow> (string \<times> int) list"
  where
  "truncate_step minCharOccurences truncatedCounts p =
     (case p of (tk, val) \<Rightarrow>
        let base = truncateLeetSuffix tk in
        if int (length base) \<ge> minCharOccurences
        then upd base (\<lambda>v. v + val) truncatedCounts
        else upd tk (\<lambda>v. v + val) truncatedCounts)"

definition truncate_counts :: "int \<Rightarrow> (string \<times> int) list \<Rightarrow> (string \<times> int) list" where
  "truncate_counts minCharOccurences tokenCount =
     foldl (truncate_step minCharOccurences) [] tokenCount"

text \<open>The choice between the two analyses (lines 84 to 103).\<close>

definition chosenEntries ::
  "(Entry list \<Rightarrow> Entry list) \<Rightarrow> (Entry list \<Rightarrow> Entry list) \<Rightarrow> int \<Rightarrow> (string \<times> int) list \<Rightarrow> Entry list"
  where
  "chosenEntries ord1 ord2 minCharOccurences tokenCount =
     (let sortedEntries = MergeIntoSmaller (SortMapByValueDesc ord1 tokenCount);
          truncatedEntries =
            MergeIntoSmaller
              (SortMapByValueDesc ord2 (truncate_counts minCharOccurences tokenCount))
      in if getMaxCount truncatedEntries > getMaxCount sortedEntries
         then truncatedEntries else sortedEntries)"

text \<open>The new \<open>TokenCount\<close> map (lines 105 to 109).\<close>

definition consolidate ::
  "(Entry list \<Rightarrow> Entry list) \<Rightarrow> (Entry list \<Rightarrow> Entry list) \<Rightarrow> int \<Rightarrow> (string \<times> int) list
     \<Rightarrow> (string \<times> int) list"
  where
  "consolidate ord1 ord2 minCharOccurences tokenCount =
     foldl (\<lambda>m entry. upd (Key entry) (\<lambda>_. Value entry) m) []
       (chosenEntries ord1 ord2 minCharOccurences tokenCount)"

definition reuse_count :: "(string \<times> int) list \<Rightarrow> int" where
  "reuse_count mostreuse = foldl (\<lambda>acc (_, n). if n > 1 then acc + n else acc) 0 mostreuse"

definition AnalyzePasswords ::
  "go_lib \<Rightarrow> (Entry list \<Rightarrow> Entry list) \<Rightarrow> (Entry list \<Rightarrow> Entry list) \<Rightarrow> input_file \<Rightarrow> int
     \<Rightarrow> Stats \<times> error option"
  where
  "AnalyzePasswords L ord1 ord2 f minCharOccurences =
     (case f of
        Unreadable \<Rightarrow> (empty_stats, Some OpenError)
      | Readable lines scan_failed \<Rightarrow>
          (case scan_lines L minCharOccurences lines of (data, lineCount) \<Rightarrow>
             let data1 = data\<lparr>TokenCount :=
                           consolidate ord1 ord2 minCharOccurences (TokenCount data)\<rparr>
             in if lineCount < 2 then (data1, Some TooFewPasswords)
                else (data1\<lparr>CrackedReuseCount := reuse_count (Mostreuse data1)\<rparr>,
                      if scan_failed then Some ScanError else None)))"

section \<open>Facts about the scanning loop\<close>

lemma hist_sum_upd_add: "hist_sum (upd k (\<lambda>v. v + n) m) = hist_sum m + n"
  by (induction m) (auto simp: hist_sum_def)

lemma count_token_frame:
  "CrackedCount (count_token L n d t) = CrackedCount d"
  "Lengths (count_token L n d t) = Lengths d"
  "Complexity (count_token L n d t) = Complexity d"
  "Patterns (count_token L n d t) = Patterns d"
  "Mostreuse (count_token L n d t) = Mostreuse d"
  "CrackedReuseCount (count_token L n d t) = CrackedReuseCount d"
  by (simp_all add: count_token_def Let_def)

lemma count_tokens_frame:
  "CrackedCount (foldl (count_token L n) d ts) = CrackedCount d"
  "Lengths (foldl (count_token L n) d ts) = Lengths d"
  "Complexity (foldl (count_token L n) d ts) = Complexity d"
  "Patterns (foldl (count_token L n) d ts) = Patterns d"
  "Mostreuse (foldl (count_token L n) d ts) = Mostreuse d"
  "CrackedReuseCount (foldl (count_token L n) d ts) = CrackedReuseCount d"
  by (induction ts arbitrary: d) (simp_all add: count_token_frame)

lemma countCategories_len: "fst (countCategories L line) = int (length line)"
  by (simp add: countCategories_def split: prod.splits)

lemma scan_line_empty: "scan_line L n s [] = s"
  by (simp add: scan_line_def split: prod.splits)

lemma scan_line_nonempty:
  assumes "line \<noteq> []"
  shows "CrackedCount (fst (scan_line L n s line)) = CrackedCount (fst s) + 1"
    and "Lengths (fst (scan_line L n s line))
           = upd (int (length line)) (\<lambda>v. v + 1) (Lengths (fst s))"
    and "Complexity (fst (scan_line L n s line))
           = upd (snd (countCategories L line)) (\<lambda>v. v + 1) (Complexity (fst s))"
    and "Patterns (fst (scan_line L n s line))
           = upd (pattern_of L line) (\<lambda>v. v + 1) (Patterns (fst s))"
    and "Mostreuse (fst (scan_line L n s line)) = upd line (\<lambda>v. v + 1) (Mostreuse (fst s))"
    and "CrackedReuseCount (fst (scan_line L n s line)) = CrackedReuseCount (fst s)"
    and "snd (scan_line L n s line) = snd s + 1"
  using assms countCategories_len [of L line]
  by (auto simp: scan_line_def Let_def count_tokens_frame split: prod.splits)

text \<open>The invariant of the scanning loop behind claim C6.\<close>

definition sums_agree :: "Stats \<Rightarrow> bool" where
  "sums_agree d = (hist_sum (Lengths d) = CrackedCount d \<and> hist_sum (Complexity d) = CrackedCount d)"

lemma scan_line_sums: "sums_agree (fst s) \<Longrightarrow> sums_agree (fst (scan_line L n s line))"
  by (cases "line = []")
     (simp_all add: scan_line_empty scan_line_nonempty sums_agree_def hist_sum_upd_add)

lemma foldl_scan_line_sums:
  "sums_agree (fst s) \<Longrightarrow> sums_agree (fst (foldl (scan_line L n) s lines))"
  by (induction lines arbitrary: s) (simp_all add: scan_line_sums)

lemma scan_lines_sums: "sums_agree (fst (scan_lines L n lines))"
  unfolding scan_lines_def
  by (rule foldl_scan_line_sums) (simp add: sums_agree_def empty_stats_def hist_sum_def)

lemma foldl_scan_line_count:
  "snd (foldl (scan_line L n) s lines) = snd s + int (length (filter (\<lambda>l. l \<noteq> []) lines))"
  "CrackedCount (fst (foldl (scan_line L n) s lines))
     = CrackedCount (fst s) + int (length (filter (\<lambda>l. l \<noteq> []) lines))"
proof (induction lines arbitrary: s)
  case Nil
  { case 1 show ?case by simp }
  { case 2 show ?case by simp }
next
  case (Cons l lines)
  { case 1 show ?case using Cons(1) [of "scan_line L n s l"]
      by (cases "l = []") (simp_all add: scan_line_empty scan_line_nonempty) }
  { case 2 show ?case using Cons(2) [of "scan_line L n s l"]
      by (cases "l = []") (simp_all add: scan_line_empty scan_line_nonempty) }
qed

lemma scan_lines_count:
  "snd (scan_lines L n lines) = int (length (filter (\<lambda>l. l \<noteq> []) lines))"
  "CrackedCount (fst (scan_lines L n lines)) = int (length (filter (\<lambda>l. l \<noteq> []) lines))"
  by (simp_all add: scan_lines_def foldl_scan_line_count empty_stats_def)

lemma AnalyzePasswords_Readable:
  "AnalyzePasswords L ord1 ord2 (Readable lines sf) n =
     (let data = fst (scan_lines L n lines);
          data1 = data\<lparr>TokenCount := consolidate ord1 ord2 n (TokenCount data)\<rparr>
      in if int (length (filter (\<lambda>l. l \<noteq> []) lines)) < 2 then (data1, Some TooFewPasswords)
         else (data1\<lparr>CrackedReuseCount := reuse_count (Mostreuse data1)\<rparr>,
               if sf then Some ScanError else None))"
proof (cases "scan_lines L n lines")
  case (Pair data lineCount)
  with scan_lines_count(1) [of L n lines]
  have "lineCount = int (length (filter (\<lambda>l. l \<noteq> []) lines))" by simp
  with Pair show ?thesis by (simp add: AnalyzePasswords_def Let_def)
qed

text \<open>The equations that evaluate the model on a concrete input.\<close>

lemmas eval_defs =
  AnalyzePasswords_def scan_lines_def scan_line_def FindAllString_def countCategories_def
  category_flag_def classifyChar_def pattern_of_def count_token_def ToLower_def Unleet_def
  unleet_rune_def leetMap_def EncodeRune_def token_class_def ascii_lib_def ascii_lower_def
  upper_latin1_def consolidate_def chosenEntries_def truncate_counts_def truncate_step_def truncateLeetSuffix_def
  SortMapByValueDesc_def entries_of_def getMaxCount_def MergeIntoSmaller_def merge_loop.simps
  merge_step_def find_target.simps reuse_count_def empty_stats_def char_of_eq_iff Let_def
  cont_def RuneError_def

subsection \<open>Claim C6: the length and complexity histograms sum to the cracked count\<close>

text \<open>
  Claim C6.  Whatever the file (unreadable, readable, with or without a scanner error) and
  whatever error is returned with them, the statistics returned by \<open>AnalyzePasswords\<close>
  satisfy: the counts of the length histogram sum to \<open>CrackedCount\<close>, and so do the
  counts of the complexity histogram; for a readable file \<open>CrackedCount\<close> is the number
  of non-empty lines, each of which adds one to all three.
\<close>

theorem C6_histogram_sums_equal_cracked_count:
  "hist_sum (Lengths (fst (AnalyzePasswords L ord1 ord2 f n)))
     = CrackedCount (fst (AnalyzePasswords L ord1 ord2 f n)) \<and>
   hist_sum (Complexity (fst (AnalyzePasswords L ord1 ord2 f n)))
     = CrackedCount (fst (AnalyzePasswords L ord1 ord2 f n)) \<and>
   CrackedCount (fst (AnalyzePasswords L ord1 ord2 (Readable lines sf) n))
     = int (length (filter (\<lambda>l. l \<noteq> []) lines))"
proof -
  have "sums_agree (fst (AnalyzePasswords L ord1 ord2 f n))"
  proof (cases f)
    case Unreadable
    then show ?thesis
      by (simp add: AnalyzePasswords_def sums_agree_def empty_stats_def hist_sum_def)
  next
    case (Readable lines' sf')
    from scan_lines_sums [of L n lines'] show ?thesis
      unfolding Readable AnalyzePasswords_Readable by (simp add: Let_def sums_agree_def)
  qed
  moreover have "CrackedCount (fst (AnalyzePasswords L ord1 ord2 (Readable lines sf) n))
     = int (length (filter (\<lambda>l. l \<noteq> []) lines))"
    unfolding AnalyzePasswords_Readable by (simp add: Let_def scan_lines_count)
  ultimately show ?thesis by (simp add: sums_agree_def)
qed

theorem C6_histogram_sums_equal_cracked_count_witness:
  "hist_sum (Lengths (fst (AnalyzePasswords ascii_lib (\<lambda>m. m) (\<lambda>m. m)
      (Readable [''abcd'', ''abcd'', '''', ''ABCD1''] False) 4))) = 3 \<and>
   hist_sum (Complexity (fst (AnalyzePasswords ascii_lib (\<lambda>m. m) (\<lambda>m. m)
      (Readable [''abcd'', ''abcd'', '''', ''ABCD1''] False) 4))) = 3 \<and>
   CrackedCount (fst (AnalyzePasswords ascii_lib (\<lambda>m. m) (\<lambda>m. m)
      (Readable [''abcd'', ''abcd'', '''', ''ABCD1''] False) 4)) = 3"
  using C6_histogram_sums_equal_cracked_count [of ascii_lib "\<lambda>m. m" "\<lambda>m. m"
      "Readable [''abcd'', ''abcd'', '''', ''ABCD1''] False" 4 "[''abcd'', ''abcd'', '''', ''ABCD1'']" False]
  by simp

subsection \<open>Claim C4: fewer than two passwords\<close>

lemma too_few_example_data:
  "AnalyzePasswords ascii_lib (\<lambda>m. m) (\<lambda>m. m) (Readable [''abcd''] sf) 4 =
     (\<lparr>CrackedCount = 1, Lengths = [(4, 1)], Complexity = [(1, 1)],
       Patterns = [(''llll'', 1)], Mostreuse = [(''abcd'', 1)],
       CrackedReuseCount = 0, TokenCount = [(''abcd'', 1)]\<rparr>,
      Some TooFewPasswords)"
  by (simp add: eval_defs)

lemma blank_lines_example:
  "snd (AnalyzePasswords ascii_lib (\<lambda>m. m) (\<lambda>m. m) (Readable ['' '', '' ''] False) 4) = None"
  by (simp add: eval_defs)

text \<open>
  Claim C4 says that a file with fewer than 2 non-blank lines yields the error and no
  partial statistics, and that a file with 2 or more non-blank lines does not yield it.
  Three things differ in the source.  It returns \<open>data\<close> with the error
  (\<open>return data, fmt.Errorf(...)\<close>) after the scanning loop and the consolidation have
  filled it: for the one-line file \<open>abcd\<close> the returned statistics count one cracked
  password of length 4.  It skips a line only when it is the empty string: a file of two
  lines that hold one space each has no non-blank line and yields no error.  And it
  tests \<open>lineCount < 2\<close> before it looks at \<open>scanner.Err()\<close>: when the scanner stops at
  a read error (a line too long for its buffer, say) after it has yielded only \<open>abcd\<close>,
  the error returned is the insufficient-data error, however many lines the file holds
  after that point.
\<close>

theorem C4_too_few_passwords_counterexample:
  "AnalyzePasswords ascii_lib (\<lambda>m. m) (\<lambda>m. m) (Readable [''abcd''] False) 4 =
     (\<lparr>CrackedCount = 1, Lengths = [(4, 1)], Complexity = [(1, 1)],
       Patterns = [(''llll'', 1)], Mostreuse = [(''abcd'', 1)],
       CrackedReuseCount = 0, TokenCount = [(''abcd'', 1)]\<rparr>,
      Some TooFewPasswords) \<and>
   snd (AnalyzePasswords ascii_lib (\<lambda>m. m) (\<lambda>m. m) (Readable ['' '', '' ''] False) 4) = None \<and>
   snd (AnalyzePasswords ascii_lib (\<lambda>m. m) (\<lambda>m. m) (Readable [''abcd''] True) 4)
     = Some TooFewPasswords"
  by (simp only: too_few_example_data blank_lines_example snd_conv simp_thms)

text \<open>
  Claim C4 as amended.  \<open>AnalyzePasswords\<close> returns the insufficient-data error exactly
  when the file opens and the scanner yields fewer than 2 non-empty lines before it
  stops, at the end of the file or at a read error (a line is skipped only when it is
  the empty string).  The error comes together with the statistics gathered from the
  lines read: the result of the scanning loop with its token histogram consolidated; the
  cracked count is the number of non-empty lines and the reuse count is left at 0.
  When the scanner yields 2 or more non-empty lines, the error returned is the
  scanner's, if any; when the file does not open, it is the error of opening it.
\<close>

theorem C4_too_few_passwords:
  "(length (filter (\<lambda>l. l \<noteq> []) lines) < 2 \<longrightarrow>
      AnalyzePasswords L ord1 ord2 (Readable lines sf) n =
        ((fst (scan_lines L n lines))
           \<lparr>TokenCount := consolidate ord1 ord2 n (TokenCount (fst (scan_lines L n lines)))\<rparr>,
         Some TooFewPasswords) \<and>
      CrackedCount (fst (AnalyzePasswords L ord1 ord2 (Readable lines sf) n))
        = int (length (filter (\<lambda>l. l \<noteq> []) lines)) \<and>
      CrackedReuseCount (fst (AnalyzePasswords L ord1 ord2 (Readable lines sf) n)) = 0) \<and>
   (2 \<le> length (filter (\<lambda>l. l \<noteq> []) lines) \<longrightarrow>
      snd (AnalyzePasswords L ord1 ord2 (Readable lines sf) n)
        = (if sf then Some ScanError else None)) \<and>
   (snd (AnalyzePasswords L ord1 ord2 (Readable lines sf) n) = Some TooFewPasswords
      \<longleftrightarrow> length (filter (\<lambda>l. l \<noteq> []) lines) < 2) \<and>
   AnalyzePasswords L ord1 ord2 Unreadable n = (empty_stats, Some OpenError)"
proof -
  have "CrackedReuseCount (fst (foldl (scan_line L n) s lines)) = CrackedReuseCount (fst s)" for s
  proof (induction lines arbitrary: s)
    case Nil
    show ?case by simp
  next
    case (Cons l lines)
    show ?case using Cons [of "scan_line L n s l"]
      by (cases "l = []") (simp_all add: scan_line_empty scan_line_nonempty)
  qed
  then have "CrackedReuseCount (fst (scan_lines L n lines)) = 0"
    by (simp add: scan_lines_def empty_stats_def)
  moreover have "AnalyzePasswords L ord1 ord2 Unreadable n = (empty_stats, Some OpenError)"
    by (simp add: AnalyzePasswords_def)
  ultimately show ?thesis
    unfolding AnalyzePasswords_Readable by (simp add: Let_def scan_lines_count)
qed

theorem C4_too_few_passwords_witness:
  "AnalyzePasswords ascii_lib (\<lambda>m. m) (\<lambda>m. m) (Readable ['''', ''abcd''] False) 4 =
     (\<lparr>CrackedCount = 1, Lengths = [(4, 1)], Complexity = [(1, 1)],
       Patterns = [(''llll'', 1)], Mostreuse = [(''abcd'', 1)],
       CrackedReuseCount = 0, TokenCount = [(''abcd'', 1)]\<rparr>,
      Some TooFewPasswords) \<and>
   snd (AnalyzePasswords ascii_lib (\<lambda>m. m) (\<lambda>m. m) (Readable [''abcd'', ''abcd''] False) 4) = None \<and>
   snd (AnalyzePasswords ascii_lib (\<lambda>m. m) (\<lambda>m. m) (Readable [''abcd'', ''abcd''] True) 4)
     = Some ScanError \<and>
   snd (AnalyzePasswords ascii_lib (\<lambda>m. m) (\<lambda>m. m) (Readable ['' '', '' ''] False) 4) = None"
proof -
  have a: "length (filter (\<lambda>l. l \<noteq> []) ['''', ''abcd'']) < 2" by simp
  have b: "2 \<le> length (filter (\<lambda>l. l \<noteq> []) [''abcd'', ''abcd''])" by simp
  have c: "2 \<le> length (filter (\<lambda>l. l \<noteq> []) ['' '', '' ''])" by simp
  from C4_too_few_passwords [of "['''', ''abcd'']" ascii_lib "\<lambda>m. m" "\<lambda>m. m" False 4] a
  have "AnalyzePasswords ascii_lib (\<lambda>m. m) (\<lambda>m. m) (Readable ['''', ''abcd''] False) 4 =
        ((fst (scan_lines ascii_lib 4 ['''', ''abcd'']))
           \<lparr>TokenCount := consolidate (\<lambda>m. m) (\<lambda>m. m) 4
               (TokenCount (fst (scan_lines ascii_lib 4 ['''', ''abcd''])))\<rparr>,
         Some TooFewPasswords)"
    by blast
  moreover from C4_too_few_passwords [of "[''abcd'', ''abcd'']" ascii_lib "\<lambda>m. m" "\<lambda>m. m" False 4] b
  have "snd (AnalyzePasswords ascii_lib (\<lambda>m. m) (\<lambda>m. m) (Readable [''abcd'', ''abcd''] False) 4) = None"
    by simp
  moreover from C4_too_few_passwords [of "[''abcd'', ''abcd'']" ascii_lib "\<lambda>m. m" "\<lambda>m. m" True 4] b
  have "snd (AnalyzePasswords ascii_lib (\<lambda>m. m) (\<lambda>m. m) (Readable [''abcd'', ''abcd''] True) 4)
          = Some ScanError"
    by simp
  moreover from C4_too_few_passwords [of "['' '', '' '']" ascii_lib "\<lambda>m. m" "\<lambda>m. m" False 4] c
  have "snd (AnalyzePasswords ascii_lib (\<lambda>m. m) (\<lambda>m. m) (Readable ['' '', '' ''] False) 4) = None"
    by simp
  ultimately show ?thesis
    by (simp add: eval_defs)
qed

subsection \<open>Claim C10: the recorded length counts bytes\<close>

lemma length_EncodeRune_ascii: "r \<le> 0x7F \<Longrightarrow> length (EncodeRune r) = 1"
  by (simp add: EncodeRune_def)

lemma length_pattern_of: "length (pattern_of L line) = length (runes line)"
proof -
  have "length (concat (map (\<lambda>r. EncodeRune (classifyChar L r)) rs)) = length rs" for rs
    by (induction rs) (simp_all add: length_EncodeRune_ascii classifyChar_def)
  then show ?thesis by (simp add: pattern_of_def)
qed

lemma length_runes_le: "length (runes s) \<le> length s"
proof (induction s rule: runes.induct)
  case 1
  show ?case by simp
next
  case (2 c s)
  have "length (runes (drop (snd (DecodeRuneInString (c # s)) - 1) s))
          \<le> length (drop (snd (DecodeRuneInString (c # s)) - 1) s)"
    by (rule "2.IH")
  also have "\<dots> \<le> length s" by simp
  finally show ?case by (simp del: DecodeRuneInString.simps)
qed

lemma runes_e_acute: "runes [CHR 0xC3, CHR 0xA9] = [0xE9]"
  by (simp add: Let_def cont_def)

lemma foldl_scan_line_Lengths:
  "Lengths (fst (foldl (scan_line L n) s lines))
     = foldl (\<lambda>m l. upd (int (length l)) (\<lambda>v. v + 1) m) (Lengths (fst s))
         (filter (\<lambda>l. l \<noteq> []) lines)"
proof (induction lines arbitrary: s)
  case Nil
  show ?case by simp
next
  case (Cons l lines)
  show ?case using Cons [of "scan_line L n s l"]
    by (cases "l = []") (simp_all add: scan_line_empty scan_line_nonempty)
qed

lemma foldl_scan_line_Patterns:
  "Patterns (fst (foldl (scan_line L n) s lines))
     = foldl (\<lambda>m l. upd (pattern_of L l) (\<lambda>v. v + 1) m) (Patterns (fst s))
         (filter (\<lambda>l. l \<noteq> []) lines)"
proof (induction lines arbitrary: s)
  case Nil
  show ?case by simp
next
  case (Cons l lines)
  show ?case using Cons [of "scan_line L n s l"]
    by (cases "l = []") (simp_all add: scan_line_empty scan_line_nonempty)
qed

lemma AnalyzePasswords_Lengths:
  "Lengths (fst (AnalyzePasswords L ord1 ord2 (Readable lines sf) n))
     = foldl (\<lambda>m l. upd (int (length l)) (\<lambda>v. v + 1) m) [] (filter (\<lambda>l. l \<noteq> []) lines)"
  unfolding AnalyzePasswords_Readable
  by (simp add: Let_def scan_lines_def foldl_scan_line_Lengths empty_stats_def)

lemma AnalyzePasswords_Patterns:
  "Patterns (fst (AnalyzePasswords L ord1 ord2 (Readable lines sf) n))
     = foldl (\<lambda>m l. upd (pattern_of L l) (\<lambda>v. v + 1) m) [] (filter (\<lambda>l. l \<noteq> []) lines)"
  unfolding AnalyzePasswords_Readable
  by (simp add: Let_def scan_lines_def foldl_scan_line_Patterns empty_stats_def)

text \<open>
  Claim C10.  The length histogram that \<open>AnalyzePasswords\<close> returns for a readable file
  is built by adding one, for each non-empty line in order, at the key \<open>len(line)\<close>, the
  number of bytes of the line; the pattern histogram is built in the same way at the
  pattern of the line.  This is what one turn of the scanning loop does for a non-empty
  line.  The pattern has one symbol for each rune of the line, and a line never has more
  runes than bytes.  For the line U+00E9 (bytes \<open>C3 A9\<close>) the line has fewer runes than
  bytes and the recorded length exceeds the length of the pattern: a file of two such
  lines returns the length histogram \<open>{2: 2}\<close> and a pattern histogram whose only key is
  one symbol long.
\<close>

theorem C10_length_counts_bytes:
  "Lengths (fst (AnalyzePasswords L ord1 ord2 (Readable lines sf) n))
     = foldl (\<lambda>m l. upd (int (length l)) (\<lambda>v. v + 1) m) [] (filter (\<lambda>l. l \<noteq> []) lines) \<and>
   Patterns (fst (AnalyzePasswords L ord1 ord2 (Readable lines sf) n))
     = foldl (\<lambda>m l. upd (pattern_of L l) (\<lambda>v. v + 1) m) [] (filter (\<lambda>l. l \<noteq> []) lines) \<and>
   (line \<noteq> [] \<longrightarrow>
      Lengths (fst (scan_line L n s line))
        = upd (int (length line)) (\<lambda>v. v + 1) (Lengths (fst s)) \<and>
      Patterns (fst (scan_line L n s line))
        = upd (pattern_of L line) (\<lambda>v. v + 1) (Patterns (fst s))) \<and>
   fst (countCategories L line) = int (length line) \<and>
   length (pattern_of L line) = length (runes line) \<and>
   length (runes line) \<le> length line \<and>
   length (runes [CHR 0xC3, CHR 0xA9]) < length [CHR 0xC3, CHR 0xA9] \<and>
   int (length (pattern_of L [CHR 0xC3, CHR 0xA9])) < fst (countCategories L [CHR 0xC3, CHR 0xA9]) \<and>
   Lengths (fst (AnalyzePasswords L ord1 ord2
      (Readable [[CHR 0xC3, CHR 0xA9], [CHR 0xC3, CHR 0xA9]] sf) n)) = [(2, 2)] \<and>
   Patterns (fst (AnalyzePasswords L ord1 ord2
      (Readable [[CHR 0xC3, CHR 0xA9], [CHR 0xC3, CHR 0xA9]] sf) n))
     = [(pattern_of L [CHR 0xC3, CHR 0xA9], 2)] \<and>
   length (pattern_of L [CHR 0xC3, CHR 0xA9]) = 1"
proof -
  have e1: "int (length (pattern_of L [CHR 0xC3, CHR 0xA9])) < fst (countCategories L [CHR 0xC3, CHR 0xA9])"
    unfolding length_pattern_of countCategories_len runes_e_acute by simp
  have e2: "length (runes [CHR 0xC3, CHR 0xA9]) < length [CHR 0xC3, CHR 0xA9]"
    unfolding runes_e_acute by simp
  have e3: "length (pattern_of L [CHR 0xC3, CHR 0xA9]) = 1"
    unfolding length_pattern_of runes_e_acute by simp
  have e4: "Lengths (fst (AnalyzePasswords L ord1 ord2
      (Readable [[CHR 0xC3, CHR 0xA9], [CHR 0xC3, CHR 0xA9]] sf) n)) = [(2, 2)]"
    unfolding AnalyzePasswords_Lengths by simp
  have e5: "Patterns (fst (AnalyzePasswords L ord1 ord2
      (Readable [[CHR 0xC3, CHR 0xA9], [CHR 0xC3, CHR 0xA9]] sf) n))
     = [(pattern_of L [CHR 0xC3, CHR 0xA9], 2)]"
    unfolding AnalyzePasswords_Patterns by simp
  have g: "(line \<noteq> [] \<longrightarrow>
      Lengths (fst (scan_line L n s line))
        = upd (int (length line)) (\<lambda>v. v + 1) (Lengths (fst s)) \<and>
      Patterns (fst (scan_line L n s line))
        = upd (pattern_of L line) (\<lambda>v. v + 1) (Patterns (fst s)))"
    by (simp add: scan_line_nonempty)
  show ?thesis
    using e1 e2 e3 e4 e5 g length_runes_le [of line]
      AnalyzePasswords_Lengths [of L ord1 ord2 lines sf n]
      AnalyzePasswords_Patterns [of L ord1 ord2 lines sf n]
    by (simp only: countCategories_len length_pattern_of simp_thms)
qed

theorem C10_length_counts_bytes_witness:
  "Lengths (fst (AnalyzePasswords ascii_lib (\<lambda>es. es) (\<lambda>es. es)
      (Readable [[CHR 0xC3, CHR 0xA9], ''abcd'', '''', [CHR 0xC3, CHR 0xA9]] False) 4))
     = [(2, 2), (4, 1)] \<and>
   Patterns (fst (AnalyzePasswords ascii_lib (\<lambda>es. es) (\<lambda>es. es)
      (Readable [[CHR 0xC3, CHR 0xA9], ''abcd'', '''', [CHR 0xC3, CHR 0xA9]] False) 4))
     = [(''l'', 2), (''llll'', 1)] \<and>
   Lengths (fst (scan_line ascii_lib 4 (empty_stats, 0) [CHR 0xC3, CHR 0xA9])) = [(2, 1)] \<and>
   Patterns (fst (scan_line ascii_lib 4 (empty_stats, 0) [CHR 0xC3, CHR 0xA9])) = [(''l'', 1)] \<and>
   fst (countCategories ascii_lib [CHR 0xC3, CHR 0xA9]) = 2 \<and>
   length (pattern_of ascii_lib [CHR 0xC3, CHR 0xA9]) = 1 \<and>
   length (runes [CHR 0xC3, CHR 0xA9]) = 1"
proof -
  have ne: "[CHR 0xC3, CHR 0xA9] \<noteq> []" by simp
  have p: "pattern_of ascii_lib [CHR 0xC3, CHR 0xA9] = ''l''"
    by (simp add: eval_defs)
  have q: "pattern_of ascii_lib ''abcd'' = ''llll''"
    by (simp add: eval_defs)
  note c = C10_length_counts_bytes [of ascii_lib "\<lambda>es. es" "\<lambda>es. es"
      "[[CHR 0xC3, CHR 0xA9], ''abcd'', '''', [CHR 0xC3, CHR 0xA9]]" False 4
      "[CHR 0xC3, CHR 0xA9]" "(empty_stats, 0)"]
  from c have "Lengths (fst (AnalyzePasswords ascii_lib (\<lambda>es. es) (\<lambda>es. es)
      (Readable [[CHR 0xC3, CHR 0xA9], ''abcd'', '''', [CHR 0xC3, CHR 0xA9]] False) 4))
     = foldl (\<lambda>m l. upd (int (length l)) (\<lambda>v. v + 1) m) []
         (filter (\<lambda>l. l \<noteq> []) [[CHR 0xC3, CHR 0xA9], ''abcd'', '''', [CHR 0xC3, CHR 0xA9]])"
    by (rule conjunct1)
  moreover from c have "Patterns (fst (AnalyzePasswords ascii_lib (\<lambda>es. es) (\<lambda>es. es)
      (Readable [[CHR 0xC3, CHR 0xA9], ''abcd'', '''', [CHR 0xC3, CHR 0xA9]] False) 4))
     = foldl (\<lambda>m l. upd (pattern_of ascii_lib l) (\<lambda>v. v + 1) m) []
         (filter (\<lambda>l. l \<noteq> []) [[CHR 0xC3, CHR 0xA9], ''abcd'', '''', [CHR 0xC3, CHR 0xA9]])"
    by (rule conjunct1 [OF conjunct2])
  moreover from c ne
  have "Lengths (fst (scan_line ascii_lib 4 (empty_stats, 0) [CHR 0xC3, CHR 0xA9]))
          = upd (int (length [CHR 0xC3, CHR 0xA9])) (\<lambda>v. v + 1) (Lengths (fst (empty_stats, 0)))
    \<and> Patterns (fst (scan_line ascii_lib 4 (empty_stats, 0) [CHR 0xC3, CHR 0xA9]))
          = upd (pattern_of ascii_lib [CHR 0xC3, CHR 0xA9]) (\<lambda>v. v + 1) (Patterns (fst (empty_stats, 0)))
    \<and> fst (countCategories ascii_lib [CHR 0xC3, CHR 0xA9]) = int (length [CHR 0xC3, CHR 0xA9])
    \<and> length (pattern_of ascii_lib [CHR 0xC3, CHR 0xA9]) = length (runes [CHR 0xC3, CHR 0xA9])"
    by simp
  ultimately show ?thesis
    by (simp add: p q runes_e_acute empty_stats_def)
qed

section \<open>Facts about sorting, truncation and the rebuilt map\<close>

lemma total_entries_of: "total (entries_of m) = hist_sum m"
  by (induction m) (auto simp: total_def entries_of_def hist_sum_def)

lemma total_mset: "mset es = mset es' \<Longrightarrow> total es = total es'"
proof -
  assume "mset es = mset es'"
  then have "mset (map Value es) = mset (map Value es')" by (metis mset_map)
  then have "sum_mset (mset (map Value es)) = sum_mset (mset (map Value es'))" by simp
  then show ?thesis unfolding total_def by (simp only: sum_mset_sum_list)
qed

lemma total_SortMapByValueDesc:
  "rearranges ord \<Longrightarrow> total (SortMapByValueDesc ord m) = hist_sum m"
proof -
  assume "rearranges ord"
  then have "mset (sort_key (\<lambda>e. - Value e) (ord (entries_of m))) = mset (entries_of m)"
    by (simp add: rearranges_def)
  from total_mset [OF this] show ?thesis
    by (simp add: SortMapByValueDesc_def total_entries_of)
qed

lemma distinct_Key_mset:
  "mset es = mset es' \<Longrightarrow> distinct (map Key es) \<Longrightarrow> distinct (map Key es')"
proof -
  assume "mset es = mset es'" and d: "distinct (map Key es)"
  then have "mset (map Key es) = mset (map Key es')" by (metis mset_map)
  with d show ?thesis by (metis mset_eq_imp_distinct_iff)
qed

lemma Key_entries_of: "map Key (entries_of m) = map fst m"
  by (induction m) (auto simp: entries_of_def)

lemma distinct_SortMapByValueDesc:
  assumes "rearranges ord" "distinct (map fst m)"
  shows "distinct (map Key (SortMapByValueDesc ord m))"
proof -
  from assms(1) have "mset (entries_of m) = mset (sort_key (\<lambda>e. - Value e) (ord (entries_of m)))"
    by (simp add: rearranges_def)
  from distinct_Key_mset [OF this] assms(2) show ?thesis
    by (simp add: SortMapByValueDesc_def Key_entries_of)
qed

lemma keys_upd:
  "map fst (upd k f m) = (if k \<in> fst ` set m then map fst m else map fst m @ [k])"
proof (induction m)
  case Nil
  show ?case by simp
next
  case (Cons p m)
  obtain k' v where p: "p = (k', v)" by (cases p)
  show ?case
  proof (cases "k = k'")
    case True
    then show ?thesis unfolding p by simp
  next
    case False
    then have "(k \<in> fst ` set ((k', v) # m)) = (k \<in> fst ` set m)" by auto
    with False Cons show ?thesis unfolding p by simp
  qed
qed

lemma distinct_upd: "distinct (map fst m) \<Longrightarrow> distinct (map fst (upd k f m))"
  unfolding keys_upd by auto

lemma upd_fresh: "k \<notin> fst ` set m \<Longrightarrow> upd k f m = m @ [(k, f 0)]"
  by (induction m) auto

lemma hist_sum_truncate_step: "hist_sum (truncate_step n acc p) = hist_sum acc + snd p"
  by (cases p) (simp add: truncate_step_def Let_def hist_sum_upd_add)

lemma hist_sum_truncate_fold:
  "hist_sum (foldl (truncate_step n) acc m) = hist_sum acc + hist_sum m"
proof (induction m arbitrary: acc)
  case Nil
  show ?case by (simp add: hist_sum_def)
next
  case (Cons p m)
  have "hist_sum (p # m) = snd p + hist_sum m" by (simp add: hist_sum_def)
  then show ?case by (simp add: Cons hist_sum_truncate_step)
qed

lemma hist_sum_truncate_counts: "hist_sum (truncate_counts n m) = hist_sum m"
  unfolding truncate_counts_def hist_sum_truncate_fold by (simp add: hist_sum_def)

lemma distinct_truncate_step:
  "distinct (map fst acc) \<Longrightarrow> distinct (map fst (truncate_step n acc p))"
  by (cases p) (simp add: truncate_step_def Let_def distinct_upd)

lemma distinct_truncate_fold:
  "distinct (map fst acc) \<Longrightarrow> distinct (map fst (foldl (truncate_step n) acc m))"
  by (induction m arbitrary: acc) (simp_all add: distinct_truncate_step)

lemma distinct_truncate_counts: "distinct (map fst (truncate_counts n m))"
  unfolding truncate_counts_def by (rule distinct_truncate_fold) simp

lemma hist_sum_rebuild:
  "distinct (map Key es) \<Longrightarrow> Key ` set es \<inter> fst ` set acc = {} \<Longrightarrow>
   hist_sum (foldl (\<lambda>m entry. upd (Key entry) (\<lambda>_. Value entry) m) acc es)
     = hist_sum acc + total es"
proof (induction es arbitrary: acc)
  case Nil
  show ?case by (simp add: total_def)
next
  case (Cons e es)
  from Cons.prems have fresh: "Key e \<notin> fst ` set acc" by auto
  have step: "upd (Key e) (\<lambda>_. Value e) acc = acc @ [(Key e, Value e)]"
    using upd_fresh [OF fresh] by simp
  have "Key ` set es \<inter> fst ` set (acc @ [(Key e, Value e)]) = {}"
    using Cons.prems by auto
  with Cons.IH [of "acc @ [(Key e, Value e)]"] Cons.prems(1)
  show ?case by (simp add: step hist_sum_def total_def)
qed

lemma hist_sum_chosen:
  assumes "rearranges ord1" "rearranges ord2" "distinct (map fst tokenCount)"
  shows "total (chosenEntries ord1 ord2 n tokenCount) = hist_sum tokenCount"
    and "distinct (map Key (chosenEntries ord1 ord2 n tokenCount))"
proof -
  have a: "total (MergeIntoSmaller (SortMapByValueDesc ord1 tokenCount)) = hist_sum tokenCount"
    by (simp add: MergeIntoSmaller_total total_SortMapByValueDesc assms)
  have b: "total (MergeIntoSmaller (SortMapByValueDesc ord2 (truncate_counts n tokenCount)))
             = hist_sum tokenCount"
    by (simp add: MergeIntoSmaller_total total_SortMapByValueDesc assms hist_sum_truncate_counts)
  have c: "distinct (map Key (MergeIntoSmaller (SortMapByValueDesc ord1 tokenCount)))"
    by (intro MergeIntoSmaller_distinct distinct_SortMapByValueDesc assms)
  have d: "distinct (map Key (MergeIntoSmaller
             (SortMapByValueDesc ord2 (truncate_counts n tokenCount))))"
    by (intro MergeIntoSmaller_distinct distinct_SortMapByValueDesc assms distinct_truncate_counts)
  show "total (chosenEntries ord1 ord2 n tokenCount) = hist_sum tokenCount"
    using a b by (simp add: chosenEntries_def Let_def)
  show "distinct (map Key (chosenEntries ord1 ord2 n tokenCount))"
    using c d by (simp add: chosenEntries_def Let_def)
qed

lemma count_token_distinct:
  "distinct (map fst (TokenCount d)) \<Longrightarrow> distinct (map fst (TokenCount (count_token L n d t)))"
  by (simp add: count_token_def Let_def distinct_upd)

lemma count_tokens_distinct:
  "distinct (map fst (TokenCount d)) \<Longrightarrow>
   distinct (map fst (TokenCount (foldl (count_token L n) d ts)))"
  by (induction ts arbitrary: d) (simp_all add: count_token_distinct)

lemma scan_line_distinct:
  "distinct (map fst (TokenCount (fst s))) \<Longrightarrow>
   distinct (map fst (TokenCount (fst (scan_line L n s line))))"
  by (cases s) (auto simp: scan_line_def Let_def split: prod.splits intro!: count_tokens_distinct)

lemma scan_lines_distinct: "distinct (map fst (TokenCount (fst (scan_lines L n lines))))"
proof -
  have "distinct (map fst (TokenCount (fst s))) \<Longrightarrow>
        distinct (map fst (TokenCount (fst (foldl (scan_line L n) s lines))))" for s
    by (induction lines arbitrary: s) (simp_all add: scan_line_distinct)
  then show ?thesis by (simp add: scan_lines_def empty_stats_def)
qed

lemma rearranges_id: "rearranges (\<lambda>es. es)"
  by (simp add: rearranges_def)

subsection \<open>Claim C7: consolidation preserves the total count\<close>

text \<open>
  Claim C7.  Whatever the order in which Go ranges over the maps and arranges equal
  counts, and whichever strategy is selected, the counts of the consolidated token
  histogram sum to the same total as the counts of the histogram before consolidation:
  for every histogram (a map, so its keys are distinct) and, in particular, for the
  histogram that the scanning loop of \<open>AnalyzePasswords\<close> builds.
\<close>

theorem C7_consolidation_preserves_mass:
  assumes "rearranges ord1" "rearranges ord2"
  shows "(distinct (map fst tokenCount) \<longrightarrow>
            hist_sum (consolidate ord1 ord2 n tokenCount) = hist_sum tokenCount) \<and>
         hist_sum (TokenCount (fst (AnalyzePasswords L ord1 ord2 (Readable lines sf) n)))
           = hist_sum (TokenCount (fst (scan_lines L n lines)))"
proof -
  have main: "hist_sum (consolidate ord1 ord2 n m) = hist_sum m" if "distinct (map fst m)" for m
    using hist_sum_rebuild [OF hist_sum_chosen(2) [OF assms that, of n], of "[]"]
      hist_sum_chosen(1) [OF assms that, of n]
    by (simp add: consolidate_def hist_sum_def)
  from main [OF scan_lines_distinct [of L n lines]]
  have "hist_sum (TokenCount (fst (AnalyzePasswords L ord1 ord2 (Readable lines sf) n)))
           = hist_sum (TokenCount (fst (scan_lines L n lines)))"
    unfolding AnalyzePasswords_Readable by (simp add: Let_def)
  with main show ?thesis by blast
qed

theorem C7_consolidation_preserves_mass_witness:
  "hist_sum (consolidate (\<lambda>es. es) (\<lambda>es. es) 4 [(''abcd'', 2), (''abcdi'', 1), (''passe'', 4)]) = 7 \<and>
   consolidate (\<lambda>es. es) (\<lambda>es. es) 4 [(''abcd'', 2), (''abcdi'', 1), (''passe'', 4)]
     = [(''passe'', 4), (''abcd'', 3)] \<and>
   hist_sum (TokenCount (fst (AnalyzePasswords ascii_lib (\<lambda>es. es) (\<lambda>es. es)
       (Readable [''abcd'', ''abcd'', '''', ''ABCD1''] False) 4))) = 3"
proof -
  have d: "distinct (map fst [(''abcd'', 2::int), (''abcdi'', 1), (''passe'', 4)])" by simp
  have s: "TokenCount (fst (scan_lines ascii_lib 4 [''abcd'', ''abcd'', '''', ''ABCD1'']))
             = [(''abcd'', 2), (''abcdi'', 1)]"
    by (simp add: eval_defs)
  from C7_consolidation_preserves_mass [OF rearranges_id rearranges_id,
      of "[(''abcd'', 2), (''abcdi'', 1), (''passe'', 4)]" 4 ascii_lib
         "[''abcd'', ''abcd'', '''', ''ABCD1'']" False] d
  have "hist_sum (consolidate (\<lambda>es. es) (\<lambda>es. es) 4 [(''abcd'', 2), (''abcdi'', 1), (''passe'', 4)])
          = hist_sum [(''abcd'', 2), (''abcdi'', 1), (''passe'', 4)]"
    and "hist_sum (TokenCount (fst (AnalyzePasswords ascii_lib (\<lambda>es. es) (\<lambda>es. es)
          (Readable [''abcd'', ''abcd'', '''', ''ABCD1''] False) 4)))
          = hist_sum (TokenCount (fst (scan_lines ascii_lib 4 [''abcd'', ''abcd'', '''', ''ABCD1''])))"
    by simp_all
  moreover have "consolidate (\<lambda>es. es) (\<lambda>es. es) 4 [(''abcd'', 2), (''abcdi'', 1), (''passe'', 4)]
     = [(''passe'', 4), (''abcd'', 3)]"
    by (simp add: eval_defs)
  ultimately show ?thesis by (simp add: s hist_sum_def)
qed

subsection \<open>Claim C3: the selection rule\<close>

lemma first_not_max_sorted:
  "MergeIntoSmaller (SortMapByValueDesc (\<lambda>es. es)
      [(''qqqqqa'', 5), (''passwordx'', 4), (''passw'', 3), (''qqqqqe'', 1)])
     = [\<lparr>Key = ''qqqqqa'', Value = 5\<rparr>, \<lparr>Key = ''passw'', Value = 7\<rparr>,
        \<lparr>Key = ''qqqqqe'', Value = 1\<rparr>]"
  by (simp add: SortMapByValueDesc_def entries_of_def MergeIntoSmaller_def merge_loop.simps
      merge_step_def find_target.simps)

lemma first_not_max_truncated:
  "truncate_counts 5 [(''qqqqqa'', 5), (''passwordx'', 4), (''passw'', 3), (''qqqqqe'', 1)]
     = [(''qqqqq'', 6), (''passwordx'', 4), (''passw'', 3)]"
  by (simp add: truncate_counts_def truncate_step_def truncateLeetSuffix_def)

lemma first_not_max_truncated_merged:
  "MergeIntoSmaller (SortMapByValueDesc (\<lambda>es. es)
      [(''qqqqq'', 6), (''passwordx'', 4), (''passw'', 3)])
     = [\<lparr>Key = ''qqqqq'', Value = 6\<rparr>, \<lparr>Key = ''passw'', Value = 7\<rparr>]"
  by (simp add: SortMapByValueDesc_def entries_of_def MergeIntoSmaller_def merge_loop.simps
      merge_step_def find_target.simps)

lemma first_not_max_maxima:
  "Max (Value ` set [\<lparr>Key = ''qqqqqa'', Value = 5\<rparr>, \<lparr>Key = ''passw'', Value = 7\<rparr>,
        \<lparr>Key = ''qqqqqe'', Value = 1\<rparr>]) = 7"
  "Max (Value ` set [\<lparr>Key = ''qqqqq'', Value = 6\<rparr>, \<lparr>Key = ''passw'', Value = 7\<rparr>]) = 7"
  by simp_all

lemma first_not_max_scan:
  "scan_lines ascii_lib 5
     [''qqqqqa'', ''qqqqqa'', ''qqqqqa'', ''qqqqqa'', ''qqqqqa'',
      ''passwordx'', ''passwordx'', ''passwordx'', ''passwordx'',
      ''passw'', ''passw'', ''passw'', ''qqqqqe''] =
   (\<lparr>CrackedCount = 13, Lengths = [(6, 6), (9, 4), (5, 3)], Complexity = [(1, 13)],
     Patterns = [(''llllll'', 6), (''lllllllll'', 4), (''lllll'', 3)],
     Mostreuse = [(''qqqqqa'', 5), (''passwordx'', 4), (''passw'', 3), (''qqqqqe'', 1)],
     CrackedReuseCount = 0,
     TokenCount = [(''qqqqqa'', 5), (''passwordx'', 4), (''passw'', 3), (''qqqqqe'', 1)]\<rparr>, 13)"
  by (simp add: scan_lines_def scan_line_def FindAllString_def countCategories_def
  category_flag_def classifyChar_def pattern_of_def count_token_def ToLower_def Unleet_def
  unleet_rune_def leetMap_def EncodeRune_def token_class_def ascii_lib_def ascii_lower_def
  upper_latin1_def empty_stats_def char_of_eq_iff Let_def)

text \<open>
  Claim C3 says that the selection compares the maximum count of each strategy's
  surviving entries.  \<open>getMaxCount\<close> is documented to return the highest \<open>Value\<close>, but
  returns \<open>entries[0].Value\<close> on the assumption that the entries are sorted, and
  \<open>MergeIntoSmaller\<close> breaks that order when it adds a count to a later entry.  With the
  token counts \<open>qqqqqa:5, passwordx:4, passw:3, qqqqqe:1\<close> and minimum length 5 (all
  counts differ, so Go's sort has one outcome), Strategy A leaves
  \<open>[qqqqqa:5, passw:7, qqqqqe:1]\<close> and Strategy B leaves \<open>[qqqqq:6, passw:7]\<close>: both
  maxima are 7, a tie on which the claim keeps A, but the code compares 6 with 5 and
  keeps B.
\<close>

theorem C3_selection_reads_first_entries:
  "MergeIntoSmaller (SortMapByValueDesc (\<lambda>es. es)
      [(''qqqqqa'', 5), (''passwordx'', 4), (''passw'', 3), (''qqqqqe'', 1)])
     = [\<lparr>Key = ''qqqqqa'', Value = 5\<rparr>, \<lparr>Key = ''passw'', Value = 7\<rparr>,
        \<lparr>Key = ''qqqqqe'', Value = 1\<rparr>] \<and>
   MergeIntoSmaller (SortMapByValueDesc (\<lambda>es. es) (truncate_counts 5
      [(''qqqqqa'', 5), (''passwordx'', 4), (''passw'', 3), (''qqqqqe'', 1)]))
     = [\<lparr>Key = ''qqqqq'', Value = 6\<rparr>, \<lparr>Key = ''passw'', Value = 7\<rparr>] \<and>
   getMaxCount [\<lparr>Key = ''qqqqqa'', Value = 5\<rparr>, \<lparr>Key = ''passw'', Value = 7\<rparr>,
        \<lparr>Key = ''qqqqqe'', Value = 1\<rparr>] = 5 \<and>
   Max (Value ` set [\<lparr>Key = ''qqqqqa'', Value = 5\<rparr>, \<lparr>Key = ''passw'', Value = 7\<rparr>,
        \<lparr>Key = ''qqqqqe'', Value = 1\<rparr>]) = 7 \<and>
   getMaxCount [\<lparr>Key = ''qqqqq'', Value = 6\<rparr>, \<lparr>Key = ''passw'', Value = 7\<rparr>] = 6 \<and>
   Max (Value ` set [\<lparr>Key = ''qqqqq'', Value = 6\<rparr>, \<lparr>Key = ''passw'', Value = 7\<rparr>]) = 7 \<and>
   chosenEntries (\<lambda>es. es) (\<lambda>es. es) 5
      [(''qqqqqa'', 5), (''passwordx'', 4), (''passw'', 3), (''qqqqqe'', 1)]
     = [\<lparr>Key = ''qqqqq'', Value = 6\<rparr>, \<lparr>Key = ''passw'', Value = 7\<rparr>] \<and>
   TokenCount (fst (AnalyzePasswords ascii_lib (\<lambda>es. es) (\<lambda>es. es)
      (Readable
         [''qqqqqa'', ''qqqqqa'', ''qqqqqa'', ''qqqqqa'', ''qqqqqa'',
          ''passwordx'', ''passwordx'', ''passwordx'', ''passwordx'',
          ''passw'', ''passw'', ''passw'', ''qqqqqe''] False) 5))
     = [(''qqqqq'', 6), (''passw'', 7)]"
proof -
  have chosen: "chosenEntries (\<lambda>es. es) (\<lambda>es. es) 5
      [(''qqqqqa'', 5), (''passwordx'', 4), (''passw'', 3), (''qqqqqe'', 1)]
     = [\<lparr>Key = ''qqqqq'', Value = 6\<rparr>, \<lparr>Key = ''passw'', Value = 7\<rparr>]"
    unfolding chosenEntries_def first_not_max_sorted first_not_max_truncated
      first_not_max_truncated_merged
    by (simp add: getMaxCount_def)
  have "TokenCount (fst (AnalyzePasswords ascii_lib (\<lambda>es. es) (\<lambda>es. es)
      (Readable
         [''qqqqqa'', ''qqqqqa'', ''qqqqqa'', ''qqqqqa'', ''qqqqqa'',
          ''passwordx'', ''passwordx'', ''passwordx'', ''passwordx'',
          ''passw'', ''passw'', ''passw'', ''qqqqqe''] False) 5))
     = [(''qqqqq'', 6), (''passw'', 7)]"
    unfolding AnalyzePasswords_def input_file.case first_not_max_scan
    by (simp add: consolidate_def chosen)
  with chosen show ?thesis
    unfolding first_not_max_truncated
    by (simp add: first_not_max_sorted first_not_max_truncated_merged first_not_max_maxima
        getMaxCount_def)
qed

section \<open>AnalyzeHashes\<close>

text \<open>\<open>strings.Split(s, sep)\<close> for a one-byte separator: one field more than separators.\<close>

fun Split :: "string \<Rightarrow> char \<Rightarrow> string list" where
  "Split [] sep = [Nil]"
| "Split (c # s) sep =
     (if c = sep then [] # Split s sep
      else (case Split s sep of p # ps \<Rightarrow> (c # p) # ps | [] \<Rightarrow> [c # Nil]))"

record HashStats =
  TotalNTLMHashes :: int
  UniqueNTLMHashes :: int
  ReusedNTLMHashes :: int
  IsLM :: int
  IsHash :: bool
  EmptyNTLMHashes :: int
  UserEqualHash :: "string list"

definition zero_HashStats :: HashStats where
  "zero_HashStats =
     \<lparr>TotalNTLMHashes = 0, UniqueNTLMHashes = 0, ReusedNTLMHashes = 0, IsLM = 0,
      IsHash = False, EmptyNTLMHashes = 0, UserEqualHash = []\<rparr>"

definition emptyLM :: string where
  "emptyLM = ''aad3b435b51404eeaad3b435b51404ee''"

definition emptyNTLM :: string where
  "emptyNTLM = ''31d6cfe0d16ae931b73c59d7e0c089c0''"

text \<open>
  The body of the scanning loop (lines 191 to 221); the state is \<open>stats\<close> and the map
  \<open>ntlmSeen\<close>.
\<close>

definition hash_line ::
  "go_lib \<Rightarrow> HashStats \<times> (string \<times> int) list \<Rightarrow> string \<Rightarrow> HashStats \<times> (string \<times> int) list"
  where
  "hash_line L s text =
     (case s of (stats, ntlmSeen) \<Rightarrow>
        let line = TrimSpace L text in
        if line = [] then (stats, ntlmSeen)
        else
          let parts = Split line CHR '':'' in
          if length parts < 4 then (stats, ntlmSeen)
          else
            let lm = parts ! 2;
                ntlm = parts ! 3;
                isEmptyNTLM = (ntlm = [] \<or> EqualFold L ntlm emptyNTLM);
                stats1 = (if isEmptyNTLM
                          then stats\<lparr>EmptyNTLMHashes := EmptyNTLMHashes stats + 1\<rparr>
                          else stats);
                stats2 = stats1\<lparr>TotalNTLMHashes := TotalNTLMHashes stats1 + 1\<rparr>;
                ntlmSeen1 = (if ntlm \<notin> fst ` set ntlmSeen
                             then upd ntlm (\<lambda>_. 1) ntlmSeen
                             else upd ntlm (\<lambda>v. v + 1) ntlmSeen);
                stats3 = (if lm \<noteq> [] \<and> \<not> EqualFold L lm emptyLM
                          then stats2\<lparr>IsLM := IsLM stats2 + 1\<rparr>
                          else stats2)
            in (stats3, ntlmSeen1))"

text \<open>The loop over \<open>ntlmSeen\<close> (lines 224 to 228); its result does not depend on the order.\<close>

definition count_unique :: "HashStats \<Rightarrow> (string \<times> int) list \<Rightarrow> HashStats" where
  "count_unique stats ntlmSeen =
     foldl (\<lambda>st (_, count).
              if count = 1 then st\<lparr>UniqueNTLMHashes := UniqueNTLMHashes st + 1\<rparr> else st)
       stats ntlmSeen"

definition AnalyzeHashes :: "go_lib \<Rightarrow> input_file \<Rightarrow> HashStats \<times> error option" where
  "AnalyzeHashes L f =
     (case f of
        Unreadable \<Rightarrow> (zero_HashStats, Some OpenError)
      | Readable lines scan_failed \<Rightarrow>
          (case foldl (hash_line L) (zero_HashStats, []) lines of (stats, ntlmSeen) \<Rightarrow>
             let stats1 = count_unique stats ntlmSeen in
             if scan_failed then (zero_HashStats, Some ScanError)
             else (stats1\<lparr>ReusedNTLMHashes := TotalNTLMHashes stats1 - UniqueNTLMHashes stats1\<rparr>,
                   None)))"

text \<open>
  The records of a hash file: the fields of each trimmed line that has at least 4 of them;
  and the primary hash (field 4) of each record.
\<close>

definition records :: "go_lib \<Rightarrow> string list \<Rightarrow> string list list" where
  "records L lines =
     filter (\<lambda>parts. 4 \<le> length parts) (map (\<lambda>text. Split (TrimSpace L text) CHR '':'') lines)"

definition primary_hashes :: "go_lib \<Rightarrow> string list \<Rightarrow> string list" where
  "primary_hashes L lines = map (\<lambda>parts. parts ! 3) (records L lines)"

section \<open>Facts about the hash scan\<close>

text \<open>Reading a map at a key: a missing key reads as 0.\<close>

definition lookup0 :: "('k \<times> int) list \<Rightarrow> 'k \<Rightarrow> int" where
  "lookup0 m k = (case map_of m k of None \<Rightarrow> 0 | Some v \<Rightarrow> v)"

lemma map_of_upd: "map_of (upd k f m) = (map_of m)(k \<mapsto> f (lookup0 m k))"
proof (induction m)
  case Nil
  show ?case by (simp add: lookup0_def)
next
  case (Cons p m)
  obtain k' v where p: "p = (k', v)" by (cases p)
  show ?case unfolding p using Cons by (auto simp: lookup0_def fun_eq_iff)
qed

text \<open>What \<open>ntlmSeen\<close> holds after the hashes \<open>hs\<close> have been seen.\<close>

definition seen_counts :: "(string \<times> int) list \<Rightarrow> string list \<Rightarrow> bool" where
  "seen_counts seen hs =
     (distinct (map fst seen) \<and>
      map_of seen = (\<lambda>k. if k \<in> set hs then Some (int (count_list hs k)) else None))"

lemma seen_counts_step:
  assumes "seen_counts seen hs"
  shows "seen_counts (if h \<notin> fst ` set seen then upd h (\<lambda>_. 1) seen
                      else upd h (\<lambda>v. v + 1) seen) (hs @ [h])"
proof -
  from assms have d: "distinct (map fst seen)"
    and m: "map_of seen = (\<lambda>k. if k \<in> set hs then Some (int (count_list hs k)) else None)"
    by (simp_all add: seen_counts_def)
  have dom: "(h \<in> fst ` set seen) = (h \<in> set hs)"
    using m by (metis domIff dom_map_of_conv_image_fst option.distinct(1))
  have l: "lookup0 seen h = int (count_list hs h)"
    unfolding lookup0_def m by (simp add: count_list_0_iff)
  show ?thesis
  proof (cases "h \<in> set hs")
    case True
    with dom have "map_of (upd h (\<lambda>v. v + 1) seen)
        = (\<lambda>k. if k \<in> set (hs @ [h]) then Some (int (count_list (hs @ [h]) k)) else None)"
      unfolding map_of_upd l m by (auto simp: fun_eq_iff)
    with True dom d show ?thesis by (simp add: seen_counts_def distinct_upd)
  next
    case False
    then have "count_list hs h = 0" by (simp add: count_list_0_iff)
    with False have "map_of (upd h (\<lambda>_. 1) seen)
        = (\<lambda>k. if k \<in> set (hs @ [h]) then Some (int (count_list (hs @ [h]) k)) else None)"
      unfolding map_of_upd m by (auto simp: fun_eq_iff)
    with False dom d show ?thesis by (simp add: seen_counts_def distinct_upd)
  qed
qed

lemma hash_line_skip:
  "\<not> 4 \<le> length (Split (TrimSpace L text) CHR '':'') \<Longrightarrow> hash_line L s text = s"
  by (cases s) (auto simp: hash_line_def Let_def)

lemma hash_line_record:
  assumes "4 \<le> length (Split (TrimSpace L text) CHR '':'')"
  shows "TotalNTLMHashes (fst (hash_line L s text)) = TotalNTLMHashes (fst s) + 1"
    and "UniqueNTLMHashes (fst (hash_line L s text)) = UniqueNTLMHashes (fst s)"
    and "snd (hash_line L s text) =
           (if Split (TrimSpace L text) CHR '':'' ! 3 \<notin> fst ` set (snd s)
            then upd (Split (TrimSpace L text) CHR '':'' ! 3) (\<lambda>_. 1) (snd s)
            else upd (Split (TrimSpace L text) CHR '':'' ! 3) (\<lambda>v. v + 1) (snd s))"
proof -
  from assms have ne: "TrimSpace L text \<noteq> []" by auto
  from assms have ge: "\<not> length (Split (TrimSpace L text) CHR '':'') < 4" by simp
  show "TotalNTLMHashes (fst (hash_line L s text)) = TotalNTLMHashes (fst s) + 1"
    using ne ge by (cases s) (simp add: hash_line_def Let_def)
  show "UniqueNTLMHashes (fst (hash_line L s text)) = UniqueNTLMHashes (fst s)"
    using ne ge by (cases s) (simp add: hash_line_def Let_def)
  show "snd (hash_line L s text) =
           (if Split (TrimSpace L text) CHR '':'' ! 3 \<notin> fst ` set (snd s)
            then upd (Split (TrimSpace L text) CHR '':'' ! 3) (\<lambda>_. 1) (snd s)
            else upd (Split (TrimSpace L text) CHR '':'' ! 3) (\<lambda>v. v + 1) (snd s))"
    using ne ge by (cases s) (simp add: hash_line_def Let_def)
qed

lemma records_Cons:
  "records L (text # lines) =
     (if 4 \<le> length (Split (TrimSpace L text) CHR '':'')
      then Split (TrimSpace L text) CHR '':'' # records L lines else records L lines)"
  by (simp add: records_def)

lemma hash_loop:
  assumes "seen_counts (snd s) hs"
  shows "TotalNTLMHashes (fst (foldl (hash_line L) s lines))
           = TotalNTLMHashes (fst s) + int (length (records L lines))"
    and "UniqueNTLMHashes (fst (foldl (hash_line L) s lines)) = UniqueNTLMHashes (fst s)"
    and "seen_counts (snd (foldl (hash_line L) s lines)) (hs @ primary_hashes L lines)"
  using assms
proof (induction lines arbitrary: s hs)
  case Nil
  { case 1 show ?case by (simp add: records_def) }
  { case 2 show ?case by simp }
  { case 3 then show ?case by (simp add: primary_hashes_def records_def) }
next
  case (Cons ln lines)
  let ?parts = "Split (TrimSpace L ln) CHR '':''"
  { case 1
    show ?case
    proof (cases "4 \<le> length ?parts")
      case True
      from seen_counts_step [OF 1, of "?parts ! 3"]
      have "seen_counts (snd (hash_line L s ln)) (hs @ [?parts ! 3])"
        by (simp only: hash_line_record(3) [OF True])
      from Cons.IH(1) [OF this] True show ?thesis
        by (simp add: hash_line_record records_Cons)
    next
      case False
      with Cons.IH(1) [OF 1] show ?thesis
        by (simp add: hash_line_skip records_Cons)
    qed }
  { case 2
    show ?case
    proof (cases "4 \<le> length ?parts")
      case True
      from seen_counts_step [OF 2, of "?parts ! 3"]
      have "seen_counts (snd (hash_line L s ln)) (hs @ [?parts ! 3])"
        by (simp only: hash_line_record(3) [OF True])
      from Cons.IH(2) [OF this] True show ?thesis
        by (simp add: hash_line_record)
    next
      case False
      with Cons.IH(2) [OF 2] show ?thesis
        by (simp add: hash_line_skip)
    qed }
  { case 3
    show ?case
    proof (cases "4 \<le> length ?parts")
      case True
      from seen_counts_step [OF 3, of "?parts ! 3"]
      have "seen_counts (snd (hash_line L s ln)) (hs @ [?parts ! 3])"
        by (simp only: hash_line_record(3) [OF True])
      from Cons.IH(3) [OF this] True show ?thesis
        by (simp add: primary_hashes_def records_Cons)
    next
      case False
      with Cons.IH(3) [OF 3] show ?thesis
        by (simp add: hash_line_skip primary_hashes_def records_Cons)
    qed }
qed

lemma count_unique_fields:
  "UniqueNTLMHashes (count_unique st seen)
     = UniqueNTLMHashes st + int (length (filter (\<lambda>p. snd p = 1) seen))"
  "TotalNTLMHashes (count_unique st seen) = TotalNTLMHashes st"
proof -
  have "UniqueNTLMHashes (foldl (\<lambda>st (_, count).
              if count = 1 then st\<lparr>UniqueNTLMHashes := UniqueNTLMHashes st + 1\<rparr> else st) st seen)
     = UniqueNTLMHashes st + int (length (filter (\<lambda>p. snd p = 1) seen))
     \<and> TotalNTLMHashes (foldl (\<lambda>st (_, count).
              if count = 1 then st\<lparr>UniqueNTLMHashes := UniqueNTLMHashes st + 1\<rparr> else st) st seen)
     = TotalNTLMHashes st"
    by (induction seen arbitrary: st) (auto split: prod.splits)
  then show "UniqueNTLMHashes (count_unique st seen)
     = UniqueNTLMHashes st + int (length (filter (\<lambda>p. snd p = 1) seen))"
    and "TotalNTLMHashes (count_unique st seen) = TotalNTLMHashes st"
    by (simp_all add: count_unique_def)
qed

lemma seen_counts_once:
  assumes "seen_counts seen hs"
  shows "length (filter (\<lambda>p. snd p = 1) seen)
           = length (filter (\<lambda>h. count_list hs h = 1) (remdups hs))"
proof -
  from assms have d: "distinct (map fst seen)"
    and m: "map_of seen = (\<lambda>k. if k \<in> set hs then Some (int (count_list hs k)) else None)"
    by (simp_all add: seen_counts_def)
  have val: "snd p = int (count_list hs (fst p))" if "p \<in> set seen" for p
  proof -
    have "map_of seen (fst p) = Some (snd p)" using that d by simp
    then show ?thesis unfolding m by (simp split: if_splits)
  qed
  have keys: "set (map fst seen) = set hs"
  proof -
    have "fst ` set seen = dom (map_of seen)" by (simp add: dom_map_of_conv_image_fst)
    also have "\<dots> = set hs" unfolding m by (auto simp: dom_def)
    finally show ?thesis by simp
  qed
  have "filter (\<lambda>p. snd p = 1) seen = filter (\<lambda>p. count_list hs (fst p) = 1) seen"
    by (rule filter_cong) (auto simp: val)
  then have "length (filter (\<lambda>p. snd p = 1) seen)
      = length (filter (\<lambda>h. count_list hs h = 1) (map fst seen))"
    by (simp add: filter_map comp_def)
  also have "\<dots> = card ({h. count_list hs h = 1} \<inter> set (map fst seen))"
    using d by (metis distinct_length_filter)
  also have "\<dots> = card ({h. count_list hs h = 1} \<inter> set (remdups hs))"
    by (simp only: keys set_remdups)
  also have "\<dots> = length (filter (\<lambda>h. count_list hs h = 1) (remdups hs))"
    by (metis distinct_length_filter distinct_remdups)
  finally show ?thesis .
qed

subsection \<open>Claim C5: unique + reused = total\<close>

text \<open>
  Claim C5.  The statistics returned by \<open>AnalyzeHashes\<close> (on every file, and also when
  they come with an error) satisfy \<open>unique + reused = total\<close>.  When the file is read
  without error, \<open>total\<close> is the number of records (trimmed lines with at least 4
  colon-delimited fields), \<open>unique\<close> is the number of distinct primary-hash values that
  occur exactly once among the records, and \<open>reused\<close> is \<open>total - unique\<close>.
\<close>

theorem C5_unique_plus_reused_is_total:
  "UniqueNTLMHashes (fst (AnalyzeHashes L f)) + ReusedNTLMHashes (fst (AnalyzeHashes L f))
     = TotalNTLMHashes (fst (AnalyzeHashes L f)) \<and>
   TotalNTLMHashes (fst (AnalyzeHashes L (Readable lines False)))
     = int (length (records L lines)) \<and>
   UniqueNTLMHashes (fst (AnalyzeHashes L (Readable lines False)))
     = int (length (filter (\<lambda>h. count_list (primary_hashes L lines) h = 1)
                      (remdups (primary_hashes L lines)))) \<and>
   ReusedNTLMHashes (fst (AnalyzeHashes L (Readable lines False)))
     = TotalNTLMHashes (fst (AnalyzeHashes L (Readable lines False)))
       - UniqueNTLMHashes (fst (AnalyzeHashes L (Readable lines False)))"
proof -
  have sum: "UniqueNTLMHashes (fst (AnalyzeHashes L f)) + ReusedNTLMHashes (fst (AnalyzeHashes L f))
     = TotalNTLMHashes (fst (AnalyzeHashes L f))"
    by (cases f) (simp_all add: AnalyzeHashes_def zero_HashStats_def Let_def split: prod.splits)
  have init: "seen_counts (snd (zero_HashStats, [])) []"
    by (simp add: seen_counts_def)
  obtain stats seen where loop: "foldl (hash_line L) (zero_HashStats, []) lines = (stats, seen)"
    by (cases "foldl (hash_line L) (zero_HashStats, []) lines")
  from hash_loop [OF init, of L lines] loop
  have t: "TotalNTLMHashes stats = int (length (records L lines))"
    and u: "UniqueNTLMHashes stats = 0"
    and s: "seen_counts seen (primary_hashes L lines)"
    by (simp_all add: zero_HashStats_def)
  have res: "fst (AnalyzeHashes L (Readable lines False))
      = (count_unique stats seen)\<lparr>ReusedNTLMHashes :=
           TotalNTLMHashes (count_unique stats seen) - UniqueNTLMHashes (count_unique stats seen)\<rparr>"
    by (simp add: AnalyzeHashes_def loop Let_def)
  show ?thesis
    unfolding res using sum
    by (simp add: count_unique_fields t u seen_counts_once [OF s])
qed

lemma hash_example:
  "AnalyzeHashes ascii_lib (Readable
      [''alice:1001:aad3b435b51404eeaad3b435b51404ee:5835048ce94ad0564e76b9d43a3a2d1b:::'',
       ''alice:1002:aad3b435b51404eeaad3b435b51404ee:5835048ce94ad0564e76b9d43a3a2d1b:::'',
       ''  '', ''carol:1004'',
       ''bob:1003:aad3b435b51404eeaad3b435b51404ee:31D6CFE0D16AE931B73C59D7E0C089C0:::''] False)
   = (\<lparr>TotalNTLMHashes = 3, UniqueNTLMHashes = 1, ReusedNTLMHashes = 2,
       IsLM = 0, IsHash = False, EmptyNTLMHashes = 1, UserEqualHash = []\<rparr>, None)"
  by (simp add: AnalyzeHashes_def hash_line_def count_unique_def zero_HashStats_def emptyLM_def
      emptyNTLM_def ascii_lib_def ascii_space_def ascii_lower_def char_of_eq_iff Let_def)

theorem C5_unique_plus_reused_is_total_witness:
  "UniqueNTLMHashes (fst (AnalyzeHashes ascii_lib (Readable
      [''alice:1001:aad3b435b51404eeaad3b435b51404ee:5835048ce94ad0564e76b9d43a3a2d1b:::'',
       ''alice:1002:aad3b435b51404eeaad3b435b51404ee:5835048ce94ad0564e76b9d43a3a2d1b:::'',
       ''  '', ''carol:1004'',
       ''bob:1003:aad3b435b51404eeaad3b435b51404ee:31D6CFE0D16AE931B73C59D7E0C089C0:::''] False)))
    + ReusedNTLMHashes (fst (AnalyzeHashes ascii_lib (Readable
      [''alice:1001:aad3b435b51404eeaad3b435b51404ee:5835048ce94ad0564e76b9d43a3a2d1b:::'',
       ''alice:1002:aad3b435b51404eeaad3b435b51404ee:5835048ce94ad0564e76b9d43a3a2d1b:::'',
       ''  '', ''carol:1004'',
       ''bob:1003:aad3b435b51404eeaad3b435b51404ee:31D6CFE0D16AE931B73C59D7E0C089C0:::''] False)))
    = 3 \<and>
   length (records ascii_lib 
      [''alice:1001:aad3b435b51404eeaad3b435b51404ee:5835048ce94ad0564e76b9d43a3a2d1b:::'',
       ''alice:1002:aad3b435b51404eeaad3b435b51404ee:5835048ce94ad0564e76b9d43a3a2d1b:::'',
       ''  '', ''carol:1004'',
       ''bob:1003:aad3b435b51404eeaad3b435b51404ee:31D6CFE0D16AE931B73C59D7E0C089C0:::'']) = 3"
  using C5_unique_plus_reused_is_total [of ascii_lib "Readable
      [''alice:1001:aad3b435b51404eeaad3b435b51404ee:5835048ce94ad0564e76b9d43a3a2d1b:::'',
       ''alice:1002:aad3b435b51404eeaad3b435b51404ee:5835048ce94ad0564e76b9d43a3a2d1b:::'',
       ''  '', ''carol:1004'',
       ''bob:1003:aad3b435b51404eeaad3b435b51404ee:31D6CFE0D16AE931B73C59D7E0C089C0:::''] False"
       "[''alice:1001:aad3b435b51404eeaad3b435b51404ee:5835048ce94ad0564e76b9d43a3a2d1b:::'',
       ''alice:1002:aad3b435b51404eeaad3b435b51404ee:5835048ce94ad0564e76b9d43a3a2d1b:::'',
       ''  '', ''carol:1004'',
       ''bob:1003:aad3b435b51404eeaad3b435b51404ee:31D6CFE0D16AE931B73C59D7E0C089C0:::'']"]
  by (simp add: hash_example)

end
